theory Spec2Isabelle
  imports Main
begin

section \<open>The shared race state of \<open>SuccessCondition\<close>\<close>

text \<open>
  The development embeds \<^verbatim>\<open>src/util/success_condition.h\<close>. A
  \<^verbatim>\<open>std::shared_ptr<WaitState>\<close> is an optional address into an explicit store
  (\<open>None\<close> is the empty pointer); the store is never shrunk, since reference counting
  only decides when memory is returned and no operation reads a freed object. The
  coroutine that calls \<^verbatim>\<open>wait_for_success\<close> is a waiter with a status of its own.
\<close>

datatype wait_status = Suspended nat | Woken nat | Returned bool

text \<open>
  Modelled from the spec: the class \<^verbatim>\<open>ConditionVariable\<close> of
  \<^verbatim>\<open>condition_variable.h\<close>, which is not among the sources. The spec's WaitSlot holds
  a queue of pending wake requests and an already-fired flag; \<open>queue\<close> lists the
  suspended waiters.
\<close>

record ConditionVariable =
  fired :: bool
  queue :: "nat list"

text \<open>
  The counter \<^verbatim>\<open>remaining_locks\<close> is a C++ \<^verbatim>\<open>int\<close>. It is an unbounded integer
  here; the only operation that could leave the range of \<^verbatim>\<open>int\<close> is guarded in
  \<open>Lock_ctor\<close> below, and the invariants keep the counter between 0 and \<open>INT_MAX\<close>.
\<close>

record WaitState =
  condition :: ConditionVariable
  remaining_locks :: int
  success :: bool

record Lock =
  lock_wait_state :: "nat option"

text \<open>
  The state of one \<^verbatim>\<open>SuccessCondition\<close> and of everything that refers to it: the
  store of \<^verbatim>\<open>WaitState\<close> objects with its allocation counter, the coordinator's
  own \<^verbatim>\<open>_wait_state\<close>, the live \<^verbatim>\<open>Lock\<close> objects and the callers of
  \<^verbatim>\<open>wait_for_success\<close>. The field \<^verbatim>\<open>_ios\<close> is only handed to the condition
  variable and is left out.
\<close>

record sys =
  heap :: "nat \<Rightarrow> WaitState"
  next_addr :: nat
  sc_wait_state :: "nat option"
  locks :: "nat \<rightharpoonup> Lock"
  next_lock :: nat
  waiters :: "nat \<rightharpoonup> wait_status"
  next_waiter :: nat

definition WaitState_ctor :: WaitState where
  "WaitState_ctor =
     \<lparr>condition = \<lparr>fired = False, queue = []\<rparr>, remaining_locks = 0, success = False\<rparr>"

definition SuccessCondition_ctor :: sys where
  "SuccessCondition_ctor =
     \<lparr>heap = (\<lambda>_. WaitState_ctor), next_addr = 0, sc_wait_state = None,
      locks = Map.empty, next_lock = 0, waiters = Map.empty, next_waiter = 0\<rparr>"

definition blocked :: "WaitState \<Rightarrow> bool" where
  "blocked ws \<longleftrightarrow> remaining_locks ws > 0 \<and> \<not> success ws"

definition INT_MAX :: int where
  "INT_MAX = 2147483647"

subsection \<open>The condition variable\<close>

text \<open>
  Modelled from the spec: what a notification of the WaitSlot does to the waiters of its
  queue. A suspended waiter is woken and returns at its next scheduling turn; any other
  status is left as it is.
\<close>

definition woken :: "wait_status option \<Rightarrow> wait_status option" where
  "woken st = (case st of Some (Suspended a) \<Rightarrow> Some (Woken a) | _ \<Rightarrow> st)"

definition wake :: "nat list \<Rightarrow> (nat \<rightharpoonup> wait_status) \<Rightarrow> (nat \<rightharpoonup> wait_status)" where
  "wake q ws = (\<lambda>w. if w \<in> set q then woken (ws w) else ws w)"

text \<open>
  Modelled from the spec: \<^verbatim>\<open>ConditionVariable::notify\<close>. Only the first call has an
  effect: it wakes every waiter of the queue and marks the slot as fired.
\<close>

definition notify :: "nat \<Rightarrow> sys \<Rightarrow> sys" where
  "notify a s =
     (let c = condition (heap s a) in
      if fired c then s
      else s\<lparr>heap := (heap s)(a := (heap s a)\<lparr>condition := \<lparr>fired = True, queue = []\<rparr>\<rparr>),
             waiters := wake (queue c) (waiters s)\<rparr>)"

text \<open>
  Modelled from the spec: \<^verbatim>\<open>ConditionVariable::wait\<close>, called by a new waiter that
  goes on to return \<^verbatim>\<open>wait_state->success\<close>. If the slot has fired the call returns
  without suspending; otherwise the waiter is queued and suspended.
\<close>

definition wait :: "nat \<Rightarrow> sys \<Rightarrow> sys" where
  "wait a s =
     (let w = next_waiter s; c = condition (heap s a) in
      if fired c
      then s\<lparr>waiters := (waiters s)(w \<mapsto> Returned (success (heap s a))),
             next_waiter := Suc w\<rparr>
      else s\<lparr>heap := (heap s)(a := (heap s a)\<lparr>condition := c\<lparr>queue := queue c @ [w]\<rparr>\<rparr>),
             waiters := (waiters s)(w \<mapsto> Suspended a),
             next_waiter := Suc w\<rparr>)"

subsection \<open>Locks\<close>

definition make_shared :: "sys \<Rightarrow> nat \<times> sys" where
  "make_shared s =
     (next_addr s,
      s\<lparr>heap := (heap s)(next_addr s := WaitState_ctor), next_addr := Suc (next_addr s)\<rparr>)"

text \<open>
  The test and allocation that open both \<^verbatim>\<open>wait_for_success\<close> and \<^verbatim>\<open>lock\<close>:
  the coordinator's state is created on first use.
\<close>

definition ensure_wait_state :: "sys \<Rightarrow> nat \<times> sys" where
  "ensure_wait_state s =
     (case sc_wait_state s of
        Some a \<Rightarrow> (a, s)
      | None \<Rightarrow> (let (a, s') = make_shared s in (a, s'\<lparr>sc_wait_state := Some a\<rparr>)))"

text \<open>
  \<^verbatim>\<open>Lock::Lock(const std::shared_ptr<WaitState>&)\<close>. The counter is a C++
  \<^verbatim>\<open>int\<close>: incrementing it at \<open>INT_MAX\<close> is undefined behaviour, the result \<open>None\<close>.
\<close>

definition Lock_ctor :: "nat \<Rightarrow> sys \<Rightarrow> sys option" where
  "Lock_ctor a s =
     (if remaining_locks (heap s a) = INT_MAX then None
      else Some (s\<lparr>heap := (heap s)(a := (heap s a)\<lparr>remaining_locks := remaining_locks (heap s a) + 1\<rparr>),
                  locks := (locks s)(next_lock s \<mapsto> \<lparr>lock_wait_state = Some a\<rparr>),
                  next_lock := Suc (next_lock s)\<rparr>))"

definition release :: "nat \<Rightarrow> bool \<Rightarrow> sys \<Rightarrow> sys" where
  "release l b s =
     (case locks s l of
        None \<Rightarrow> s
      | Some lk \<Rightarrow>
          (case lock_wait_state lk of
             None \<Rightarrow> s
           | Some a \<Rightarrow>
               (let s1 = s\<lparr>heap := (heap s)(a := (heap s a)\<lparr>remaining_locks := remaining_locks (heap s a) - 1\<rparr>)\<rparr>;
                    s2 = (if b then s1\<lparr>heap := (heap s1)(a := (heap s1 a)\<lparr>success := True\<rparr>)\<rparr> else s1);
                    s3 = (if \<not> blocked (heap s2 a) then notify a s2 else s2)
                in s3\<lparr>locks := (locks s3)(l \<mapsto> lk\<lparr>lock_wait_state := None\<rparr>)\<rparr>)))"

definition Lock_move_assign :: "nat \<Rightarrow> nat \<Rightarrow> sys \<Rightarrow> sys" where
  "Lock_move_assign tgt other s =
     (let s1 = release tgt False s in
      case locks s1 other of
        None \<Rightarrow> s1
      | Some ol \<Rightarrow>
          (let s2 = s1\<lparr>locks := (locks s1)(tgt \<mapsto> \<lparr>lock_wait_state = lock_wait_state ol\<rparr>)\<rparr>
           in s2\<lparr>locks := (locks s2)(other \<mapsto> \<lparr>lock_wait_state = None\<rparr>)\<rparr>))"

definition Lock_move_ctor :: "nat \<Rightarrow> sys \<Rightarrow> sys" where
  "Lock_move_ctor other s =
     (let l = next_lock s;
          s0 = s\<lparr>locks := (locks s)(l \<mapsto> \<lparr>lock_wait_state = None\<rparr>), next_lock := Suc l\<rparr>
      in Lock_move_assign l other s0)"

definition Lock_dtor :: "nat \<Rightarrow> sys \<Rightarrow> sys" where
  "Lock_dtor l s = (let s1 = release l False s in s1\<lparr>locks := (locks s1)(l := None)\<rparr>)"

subsection \<open>The coordinator\<close>

definition lock :: "sys \<Rightarrow> sys option" where
  "lock s = (let (a, s1) = ensure_wait_state s in Lock_ctor a s1)"

text \<open>
  \<^verbatim>\<open>wait_for_success\<close> up to its suspension point or, when it does not suspend, up
  to its return. The caller is the waiter \<open>next_waiter s\<close>.
\<close>

definition wait_for_success :: "sys \<Rightarrow> sys" where
  "wait_for_success s =
     (let (a, s1) = ensure_wait_state s;
          s2 = s1\<lparr>sc_wait_state := None\<rparr>
      in if blocked (heap s2 a) then wait a s2
         else s2\<lparr>waiters := (waiters s2)(next_waiter s2 \<mapsto> Returned (success (heap s2 a))),
                 next_waiter := Suc (next_waiter s2)\<rparr>)"

text \<open>
  The rest of \<^verbatim>\<open>wait_for_success\<close>: a woken waiter gets its scheduling turn and
  returns \<^verbatim>\<open>wait_state->success\<close> as it is then.
\<close>

definition resume :: "nat \<Rightarrow> sys \<Rightarrow> sys option" where
  "resume w s =
     (case waiters s w of
        Some (Woken a) \<Rightarrow> Some (s\<lparr>waiters := (waiters s)(w \<mapsto> Returned (success (heap s a)))\<rparr>)
      | _ \<Rightarrow> None)"

subsection \<open>Runs of the program\<close>

text \<open>
  What the tasks of a program can do to the coordinator and its locks, one event per
  uninterrupted step. An event on a \<^verbatim>\<open>Lock\<close> object that does not exist or has
  been destroyed is no step of a C++ program.
\<close>

datatype event =
    Acquire
  | Release nat bool
  | Destroy nat
  | MoveAssign nat nat
  | MoveConstruct nat
  | WaitStart
  | Resume nat

fun step :: "event \<Rightarrow> sys \<Rightarrow> sys option" where
  "step Acquire s = lock s"
| "step (Release l b) s = (if locks s l = None then None else Some (release l b s))"
| "step (Destroy l) s = (if locks s l = None then None else Some (Lock_dtor l s))"
| "step (MoveAssign tgt other) s =
     (if locks s tgt = None \<or> locks s other = None then None
      else Some (Lock_move_assign tgt other s))"
| "step (MoveConstruct other) s =
     (if locks s other = None then None else Some (Lock_move_ctor other s))"
| "step WaitStart s = Some (wait_for_success s)"
| "step (Resume w) s = resume w s"

fun run :: "event list \<Rightarrow> sys \<Rightarrow> sys option" where
  "run [] s = Some s"
| "run (e # es) s = (case step e s of None \<Rightarrow> None | Some s' \<Rightarrow> run es s')"

text \<open>
  A lock holds the race at \<open>a\<close> when its \<^verbatim>\<open>_wait_state\<close> points there; \<open>holders\<close>
  counts the live locks that do.
\<close>

definition holds :: "sys \<Rightarrow> nat \<Rightarrow> nat \<Rightarrow> bool" where
  "holds s a l \<longleftrightarrow> (case locks s l of None \<Rightarrow> False | Some lk \<Rightarrow> lock_wait_state lk = Some a)"

definition holders :: "sys \<Rightarrow> nat \<Rightarrow> nat" where
  "holders s a = length (filter (holds s a) [0..<next_lock s])"

subsection \<open>Invariants of reachable states\<close>

text \<open>
  \<open>unblocks s l b x\<close>: releasing lock \<open>l\<close> with argument \<open>b\<close> fires the condition of the
  race at \<open>x\<close>. \<open>cur s\<close>: the address that \<^verbatim>\<open>lock\<close> and \<^verbatim>\<open>wait_for_success\<close>
  work on, which is fresh when the coordinator holds no state.
\<close>

definition unblocks :: "sys \<Rightarrow> nat \<Rightarrow> bool \<Rightarrow> nat \<Rightarrow> bool" where
  "unblocks s l b x \<longleftrightarrow>
     holds s x l \<and> \<not> fired (condition (heap s x)) \<and>
     (remaining_locks (heap s x) \<le> 1 \<or> success (heap s x) \<or> b)"

definition cur :: "sys \<Rightarrow> nat" where
  "cur s = (case sc_wait_state s of Some a \<Rightarrow> a | None \<Rightarrow> next_addr s)"

text \<open>
  Every pointer refers to an allocated state and every object identifier is below its
  counter; a suspended waiter sits in the queue of an unfired condition of a race that
  is still blocked, and the queues hold nothing else; the counter of every race is the
  number of locks that hold it. The last invariant keeps the counter between 0 and
  \<open>INT_MAX\<close>, so the unbounded integers of the model never differ from the C++
  \<^verbatim>\<open>int\<close>, and the decrement in \<^verbatim>\<open>release\<close> never overflows.
\<close>

definition ptrs_ok :: "sys \<Rightarrow> bool" where
  "ptrs_ok s \<longleftrightarrow>
     (\<forall>a. sc_wait_state s = Some a \<longrightarrow> a < next_addr s) \<and>
     (\<forall>l a. holds s a l \<longrightarrow> a < next_addr s) \<and>
     dom (locks s) \<subseteq> {..<next_lock s} \<and>
     dom (waiters s) \<subseteq> {..<next_waiter s} \<and>
     (\<forall>w a. waiters s w = Some (Suspended a) \<or> waiters s w = Some (Woken a) \<longrightarrow> a < next_addr s)"

definition queues_ok :: "sys \<Rightarrow> bool" where
  "queues_ok s \<longleftrightarrow>
     (\<forall>w a. waiters s w = Some (Suspended a) \<longrightarrow>
        \<not> fired (condition (heap s a)) \<and> w \<in> set (queue (condition (heap s a))) \<and> blocked (heap s a)) \<and>
     (\<forall>a w. a < next_addr s \<longrightarrow> w \<in> set (queue (condition (heap s a))) \<longrightarrow>
        waiters s w = Some (Suspended a))"

definition counts_ok :: "sys \<Rightarrow> bool" where
  "counts_ok s \<longleftrightarrow>
     (\<forall>a<next_addr s. remaining_locks (heap s a) = int (card {l. holds s a l}) \<and>
        remaining_locks (heap s a) \<le> INT_MAX)"

definition sys_ok :: "sys \<Rightarrow> bool" where
  "sys_ok s \<longleftrightarrow> ptrs_ok s \<and> queues_ok s \<and> counts_ok s"

text \<open>
  The events that consume a lock's reference to the state at \<open>a\<close>: an explicit release,
  the destructor, and a move assignment into the lock (which releases its target first).
\<close>

definition consumes :: "event \<Rightarrow> sys \<Rightarrow> nat \<Rightarrow> bool" where
  "consumes e s a =
     (case e of
        Release l b \<Rightarrow> holds s a l
      | Destroy l \<Rightarrow> holds s a l
      | MoveAssign tgt other \<Rightarrow> holds s a tgt
      | _ \<Rightarrow> False)"

text \<open>A waiter on the race at \<open>a\<close> that is no longer suspended and can only return true.\<close>

definition resolved :: "sys \<Rightarrow> nat \<Rightarrow> nat \<Rightarrow> bool" where
  "resolved s a w \<longleftrightarrow> waiters s w = Some (Woken a) \<or> waiters s w = Some (Returned True)"

text \<open>
  Some event of the run from \<open>s\<close> releases, with success, a lock that holds the race at
  \<open>a\<close>.
\<close>

fun succeeds_on :: "nat \<Rightarrow> event list \<Rightarrow> sys \<Rightarrow> bool" where
  "succeeds_on a [] s = False"
| "succeeds_on a (e # es) s =
     ((case e of Release l b \<Rightarrow> b \<and> holds s a l | _ \<Rightarrow> False) \<or>
      (case step e s of None \<Rightarrow> False | Some s' \<Rightarrow> succeeds_on a es s'))"

text \<open>A waiter on the race at \<open>a\<close> that has not returned true.\<close>

definition unresolved_or_failed :: "sys \<Rightarrow> nat \<Rightarrow> nat \<Rightarrow> bool" where
  "unresolved_or_failed s a w \<longleftrightarrow>
     waiters s w = Some (Suspended a) \<or> waiters s w = Some (Woken a) \<or>
     waiters s w = Some (Returned False)"

subsection \<open>The host connector\<close>

text \<open>
  Modelled from the spec: the error taxonomy of the connector. The sources hold only
  the declaration of \<^verbatim>\<open>connect_to_host\<close>, which reports failure through the error
  code of its \<^verbatim>\<open>yield\<close> context. \<open>ResolutionError\<close> is what the external resolver
  fails with and \<open>ConnectError\<close> what the transport fails with for one candidate;
  \<open>ResolutionFailure\<close>, \<open>ConnectionFailed\<close> and \<open>Cancelled\<close> are the errors of the
  connector itself.
\<close>

datatype error = ResolutionError | ConnectError | ResolutionFailure | ConnectionFailed | Cancelled

type_synonym CandidateAddress = nat

type_synonym Connection = nat

text \<open>
  Modelled from the spec: the EndpointAttempt of one candidate, whose body is not among
  the sources. It leaves in its result slot the connection that the transport opened, or
  nothing when the transport failed or when the external cancellation fired before the
  attempt completed; an attempt with a connection releases its lock with success, the
  others with failure.
\<close>

definition endpoint_attempt ::
  "(CandidateAddress \<Rightarrow> error + Connection) \<Rightarrow> bool \<Rightarrow> CandidateAddress \<Rightarrow> Connection option" where
  "endpoint_attempt open_transport cancel_fired addr =
     (if cancel_fired then None
      else case open_transport addr of Inl _ \<Rightarrow> None | Inr c \<Rightarrow> Some c)"

text \<open>
  Modelled from the spec: the look-up of the attempt that recorded a connection, the
  first one observed being kept.
\<close>

fun first_recorded :: "Connection option list \<Rightarrow> Connection option" where
  "first_recorded [] = None"
| "first_recorded (None # slots) = first_recorded slots"
| "first_recorded (Some c # slots) = Some c"

text \<open>
  Modelled from the spec: the body of \<^verbatim>\<open>connect_to_host\<close>, of which the sources
  hold the declaration in \<^verbatim>\<open>connect_to_host.h\<close> only. The resolver and the transport
  are external and are parameters; \<open>cancel_fired\<close> says that the external cancel signal
  fired before any candidate completed. Resolution that fails or yields no candidate is
  a \<open>ResolutionFailure\<close>. Otherwise one attempt runs per candidate under one race;
  \<^verbatim>\<open>wait_for_success\<close> returns true exactly when some attempt released its lock with
  success, that is, recorded a connection, and the first recorded connection is
  returned. When it returns false the error is \<open>Cancelled\<close> if the signal fired and
  \<open>ConnectionFailed\<close> if not. The arguments \<^verbatim>\<open>ios\<close> and \<^verbatim>\<open>yield\<close> are left out.
\<close>

definition connect_to_host ::
  "(string \<Rightarrow> string \<Rightarrow> error + CandidateAddress list) \<Rightarrow>
   (CandidateAddress \<Rightarrow> error + Connection) \<Rightarrow> bool \<Rightarrow> string \<Rightarrow> string \<Rightarrow> error + Connection" where
  "connect_to_host resolve open_transport cancel_fired host port =
     (case resolve host port of
        Inl _ \<Rightarrow> Inl ResolutionFailure
      | Inr [] \<Rightarrow> Inl ResolutionFailure
      | Inr addrs \<Rightarrow>
          (case first_recorded (map (endpoint_attempt open_transport cancel_fired) addrs) of
             Some c \<Rightarrow> Inr c
           | None \<Rightarrow> Inl (if cancel_fired then Cancelled else ConnectionFailed)))"

subsection \<open>Example runs\<close>

text \<open>
  Concrete programs on which the theorems are instantiated: locks are numbered in the
  order of their construction, waiters in the order of their calls, and the first race
  has the address 0.
\<close>

definition locked1 :: sys where
  "locked1 = the (run [Acquire] SuccessCondition_ctor)"

definition finished1 :: sys where
  "finished1 = the (run [Release 0 True, Resume 0] (wait_for_success locked1))"

definition locked2 :: sys where
  "locked2 = the (run [Acquire, Acquire] SuccessCondition_ctor)"

definition locked2_won :: sys where
  "locked2_won = the (run [Release 1 False] (release 0 True locked2))"

definition locked2_failed :: sys where
  "locked2_failed = the (run [Release 0 False, Destroy 1] locked2)"

definition moved2 :: sys where
  "moved2 = Lock_move_assign 0 1 locked2"

definition pending2 :: sys where
  "pending2 = the (run [Acquire, Acquire, WaitStart] SuccessCondition_ctor)"

definition pending2_failed :: sys where
  "pending2_failed = the (run [Release 0 False, Destroy 1] pending2)"

definition pending3 :: sys where
  "pending3 = the (run [Acquire, Acquire, Acquire, WaitStart] SuccessCondition_ctor)"

definition pending3_won :: sys where
  "pending3_won = the (run [Release 0 False] (release 1 True pending3))"

definition moves_trace :: "event list" where
  "moves_trace = [Acquire, Acquire, Acquire, MoveAssign 0 1, Release 0 False, Release 0 True,
     Destroy 1, MoveConstruct 2]"

definition moved3 :: sys where
  "moved3 = the (run moves_trace SuccessCondition_ctor)"

definition waited2 :: sys where
  "waited2 = the (run [WaitStart, WaitStart] SuccessCondition_ctor)"

definition refilled :: sys where
  "refilled = the (run [Acquire, Release 0 False, Acquire, WaitStart] SuccessCondition_ctor)"

definition example_resolve :: "string \<Rightarrow> string \<Rightarrow> error + CandidateAddress list" where
  "example_resolve host port = (if host = ''example.org'' then Inr [1, 2, 3] else Inl ResolutionError)"

definition example_open :: "CandidateAddress \<Rightarrow> error + Connection" where
  "example_open addr = (if addr = 3 then Inr 7 else Inl ConnectError)"

section \<open>Effect of each operation on the fields of the state\<close>

lemma notify_fields [simp]:
  "next_addr (notify a s) = next_addr s"
  "sc_wait_state (notify a s) = sc_wait_state s"
  "locks (notify a s) = locks s"
  "next_lock (notify a s) = next_lock s"
  "next_waiter (notify a s) = next_waiter s"
  by (simp_all add: notify_def Let_def)

lemma notify_success [simp]: "success (heap (notify a s) x) = success (heap s x)"
  by (simp add: notify_def Let_def)

lemma notify_remaining [simp]: "remaining_locks (heap (notify a s) x) = remaining_locks (heap s x)"
  by (simp add: notify_def Let_def)

lemma notify_condition:
  "condition (heap (notify a s) x) =
     (if x = a \<and> \<not> fired (condition (heap s a)) then \<lparr>fired = True, queue = []\<rparr>
      else condition (heap s x))"
  by (simp add: notify_def Let_def)

lemma notify_waiters:
  "waiters (notify a s) w =
     (if \<not> fired (condition (heap s a)) \<and> w \<in> set (queue (condition (heap s a)))
      then woken (waiters s w) else waiters s w)"
  by (simp add: notify_def Let_def wake_def)

lemma release_fields [simp]:
  "next_addr (release l b s) = next_addr s"
  "sc_wait_state (release l b s) = sc_wait_state s"
  "next_lock (release l b s) = next_lock s"
  "next_waiter (release l b s) = next_waiter s"
  by (simp_all add: release_def Let_def split: option.splits)

lemma release_locks:
  "locks (release l b s) = (if locks s l = None then locks s else (locks s)(l \<mapsto> \<lparr>lock_wait_state = None\<rparr>))"
  by (auto simp add: release_def Let_def fun_eq_iff split: option.splits)

lemma release_success:
  "success (heap (release l b s) x) = (success (heap s x) \<or> (b \<and> holds s x l))"
  by (auto simp add: release_def Let_def holds_def split: option.splits)

lemma release_remaining:
  "remaining_locks (heap (release l b s) x) = remaining_locks (heap s x) - (if holds s x l then 1 else 0)"
  by (auto simp add: release_def Let_def holds_def split: option.splits)

lemma release_condition:
  "condition (heap (release l b s) x) =
     (if unblocks s l b x then \<lparr>fired = True, queue = []\<rparr> else condition (heap s x))"
  by (auto simp add: release_def Let_def holds_def unblocks_def blocked_def notify_condition split: option.splits)

lemma release_waiters:
  "waiters (release l b s) w =
     (if \<exists>x. unblocks s l b x \<and> w \<in> set (queue (condition (heap s x)))
      then woken (waiters s w) else waiters s w)"
  by (auto simp add: release_def Let_def holds_def unblocks_def blocked_def notify_waiters split: option.splits)

lemma ensure_fst: "fst (ensure_wait_state s) = cur s"
  by (simp add: ensure_wait_state_def make_shared_def cur_def split: option.splits)

lemma ensure_snd_fields [simp]:
  "next_addr (snd (ensure_wait_state s)) = (if sc_wait_state s = None then Suc (next_addr s) else next_addr s)"
  "sc_wait_state (snd (ensure_wait_state s)) = Some (cur s)"
  "locks (snd (ensure_wait_state s)) = locks s"
  "next_lock (snd (ensure_wait_state s)) = next_lock s"
  "waiters (snd (ensure_wait_state s)) = waiters s"
  "next_waiter (snd (ensure_wait_state s)) = next_waiter s"
  by (simp_all add: ensure_wait_state_def make_shared_def cur_def split: option.splits)

lemma ensure_snd_heap:
  "heap (snd (ensure_wait_state s)) x =
     (if sc_wait_state s = None \<and> x = next_addr s then WaitState_ctor else heap s x)"
  by (simp add: ensure_wait_state_def make_shared_def split: option.splits)

lemma lock_Some:
  "lock s = Some s' \<Longrightarrow>
     next_addr s' = (if sc_wait_state s = None then Suc (next_addr s) else next_addr s) \<and>
     sc_wait_state s' = Some (cur s) \<and>
     locks s' = (locks s)(next_lock s \<mapsto> \<lparr>lock_wait_state = Some (cur s)\<rparr>) \<and>
     next_lock s' = Suc (next_lock s) \<and>
     waiters s' = waiters s \<and> next_waiter s' = next_waiter s \<and>
     (\<forall>x. success (heap s' x) = (if sc_wait_state s = None \<and> x = next_addr s then False else success (heap s x))) \<and>
     (\<forall>x. condition (heap s' x) = (if sc_wait_state s = None \<and> x = next_addr s then \<lparr>fired = False, queue = []\<rparr> else condition (heap s x))) \<and>
     (\<forall>x. remaining_locks (heap s' x) =
        (if sc_wait_state s = None \<and> x = next_addr s then 1
         else remaining_locks (heap s x) + (if x = cur s then 1 else 0))) \<and>
     (sc_wait_state s \<noteq> None \<longrightarrow> remaining_locks (heap s (cur s)) \<noteq> INT_MAX)"
  unfolding lock_def Lock_ctor_def
  by (cases "ensure_wait_state s")
     (use ensure_fst[of s] ensure_snd_fields[of s] ensure_snd_heap[of s] in
       \<open>auto simp: WaitState_ctor_def cur_def INT_MAX_def split: if_splits\<close>)

lemma wait_fields [simp]:
  "next_addr (wait a s) = next_addr s"
  "sc_wait_state (wait a s) = sc_wait_state s"
  "locks (wait a s) = locks s"
  "next_lock (wait a s) = next_lock s"
  "next_waiter (wait a s) = Suc (next_waiter s)"
  "success (heap (wait a s) x) = success (heap s x)"
  "remaining_locks (heap (wait a s) x) = remaining_locks (heap s x)"
  "fired (condition (heap (wait a s) x)) = fired (condition (heap s x))"
  by (simp_all add: wait_def Let_def)

lemma wait_queue:
  "queue (condition (heap (wait a s) x)) =
     (if x = a \<and> \<not> fired (condition (heap s a)) then queue (condition (heap s a)) @ [next_waiter s]
      else queue (condition (heap s x)))"
  by (simp add: wait_def Let_def)

lemma wait_waiters:
  "waiters (wait a s) w =
     (if w = next_waiter s
      then Some (if fired (condition (heap s a)) then Returned (success (heap s a)) else Suspended a)
      else waiters s w)"
  by (simp add: wait_def Let_def)

lemma wfs_fields [simp]:
  "next_addr (wait_for_success s) = (if sc_wait_state s = None then Suc (next_addr s) else next_addr s)"
  "sc_wait_state (wait_for_success s) = None"
  "locks (wait_for_success s) = locks s"
  "next_lock (wait_for_success s) = next_lock s"
  "next_waiter (wait_for_success s) = Suc (next_waiter s)"
  unfolding wait_for_success_def
  by (cases "ensure_wait_state s";
      use ensure_fst[of s] ensure_snd_fields[of s] in \<open>simp add: Let_def\<close>)+

lemma wfs_heap:
  "success (heap (wait_for_success s) x) = (if sc_wait_state s = None \<and> x = next_addr s then False else success (heap s x))"
  "remaining_locks (heap (wait_for_success s) x) = (if sc_wait_state s = None \<and> x = next_addr s then 0 else remaining_locks (heap s x))"
  "fired (condition (heap (wait_for_success s) x)) = (if sc_wait_state s = None \<and> x = next_addr s then False else fired (condition (heap s x)))"
  "queue (condition (heap (wait_for_success s) x)) =
     (if sc_wait_state s = None \<and> x = next_addr s then []
      else if x = cur s \<and> blocked (heap s x) \<and> \<not> fired (condition (heap s x))
           then queue (condition (heap s x)) @ [next_waiter s]
           else queue (condition (heap s x)))"
  unfolding wait_for_success_def
  by (cases "ensure_wait_state s";
      use ensure_fst[of s] ensure_snd_fields[of s] ensure_snd_heap[of s] in
        \<open>auto simp add: Let_def wait_queue WaitState_ctor_def blocked_def cur_def split: option.splits\<close>)+

lemma wfs_waiters:
  "waiters (wait_for_success s) w =
     (if w = next_waiter s
      then Some (if sc_wait_state s \<noteq> None \<and> blocked (heap s (cur s)) \<and> \<not> fired (condition (heap s (cur s)))
                 then Suspended (cur s)
                 else Returned (sc_wait_state s \<noteq> None \<and> success (heap s (cur s))))
      else waiters s w)"
  unfolding wait_for_success_def
  by (cases "ensure_wait_state s";
      use ensure_fst[of s] ensure_snd_fields[of s] ensure_snd_heap[of s] in
        \<open>auto simp add: Let_def wait_waiters WaitState_ctor_def blocked_def cur_def split: option.splits\<close>)

lemma resume_Some:
  "resume w s = Some s' \<Longrightarrow>
     (\<exists>a. waiters s w = Some (Woken a) \<and>
           s' = s\<lparr>waiters := (waiters s)(w \<mapsto> Returned (success (heap s a)))\<rparr>)"
  by (auto simp: resume_def split: option.splits wait_status.splits)

lemma release_holds: "holds (release l b s) a l' \<longleftrightarrow> holds s a l' \<and> l' \<noteq> l"
  by (auto simp: holds_def release_locks split: option.splits)

lemma release_dom: "dom (locks (release l b s)) = dom (locks s)"
  by (auto simp add: release_locks)

lemma wake_dom [simp]: "dom (wake q ws) = dom ws"
  by (auto simp: wake_def woken_def split: option.splits wait_status.splits if_splits)

lemma notify_waiters_dom [simp]: "dom (waiters (notify a s)) = dom (waiters s)"
  by (simp add: notify_def Let_def)

lemma release_waiters_dom: "dom (waiters (release l b s)) = dom (waiters s)"
  by (simp add: release_def Let_def split: option.splits)

lemma dtor_fields [simp]:
  "next_addr (Lock_dtor l s) = next_addr s"
  "sc_wait_state (Lock_dtor l s) = sc_wait_state s"
  "next_lock (Lock_dtor l s) = next_lock s"
  "next_waiter (Lock_dtor l s) = next_waiter s"
  "heap (Lock_dtor l s) = heap (release l False s)"
  "waiters (Lock_dtor l s) = waiters (release l False s)"
  by (simp_all add: Lock_dtor_def Let_def)

lemma dtor_holds: "holds (Lock_dtor l s) a l' \<longleftrightarrow> holds s a l' \<and> l' \<noteq> l"
  using release_holds[of l False s a l']
  by (auto simp: holds_def Lock_dtor_def Let_def)

lemma dtor_dom: "dom (locks (Lock_dtor l s)) = dom (locks s) - {l}"
  by (auto simp add: Lock_dtor_def Let_def release_locks)

lemma move_assign_fields [simp]:
  "next_addr (Lock_move_assign tgt other s) = next_addr s"
  "sc_wait_state (Lock_move_assign tgt other s) = sc_wait_state s"
  "next_lock (Lock_move_assign tgt other s) = next_lock s"
  "next_waiter (Lock_move_assign tgt other s) = next_waiter s"
  "heap (Lock_move_assign tgt other s) = heap (release tgt False s)"
  "waiters (Lock_move_assign tgt other s) = waiters (release tgt False s)"
  by (simp_all add: Lock_move_assign_def Let_def split: option.splits)

lemma move_assign_holds:
  "locks s other \<noteq> None \<Longrightarrow>
   holds (Lock_move_assign tgt other s) a l \<longleftrightarrow>
     l \<noteq> other \<and> (if l = tgt then holds s a other else holds s a l)"
  by (auto simp: Lock_move_assign_def Let_def holds_def release_locks split: option.splits if_splits)

lemma move_assign_dom:
  "locks s tgt \<noteq> None \<Longrightarrow> locks s other \<noteq> None \<Longrightarrow>
   dom (locks (Lock_move_assign tgt other s)) = dom (locks s)"
  by (auto simp: Lock_move_assign_def Let_def release_locks split: option.splits if_splits)

lemma release_inert: "\<forall>a. \<not> holds s a l \<Longrightarrow> release l b s = s"
  by (auto simp: release_def holds_def split: option.splits)

lemma move_ctor_fields [simp]:
  "next_addr (Lock_move_ctor other s) = next_addr s"
  "sc_wait_state (Lock_move_ctor other s) = sc_wait_state s"
  "next_lock (Lock_move_ctor other s) = Suc (next_lock s)"
  "next_waiter (Lock_move_ctor other s) = next_waiter s"
  "heap (Lock_move_ctor other s) = heap s"
  "waiters (Lock_move_ctor other s) = waiters s"
  by (simp_all add: Lock_move_ctor_def Let_def release_inert holds_def)

lemma move_ctor_holds:
  "locks s other \<noteq> None \<Longrightarrow> other \<noteq> next_lock s \<Longrightarrow>
   holds (Lock_move_ctor other s) a l \<longleftrightarrow>
     l \<noteq> other \<and> (if l = next_lock s then holds s a other else holds s a l)"
  unfolding Lock_move_ctor_def Let_def
  by (subst move_assign_holds) (auto simp: holds_def)

lemma move_ctor_dom:
  "locks s other \<noteq> None \<Longrightarrow>
   dom (locks (Lock_move_ctor other s)) = insert (next_lock s) (dom (locks s))"
  unfolding Lock_move_ctor_def Let_def
  by (subst move_assign_dom) auto

section \<open>Preservation of the invariants\<close>

lemma woken_None [simp]: "woken st = None \<longleftrightarrow> st = None"
  by (auto simp: woken_def split: option.splits wait_status.splits)

lemma woken_Suspended [simp]: "woken st \<noteq> Some (Suspended a)"
  by (auto simp: woken_def split: option.splits wait_status.splits)

lemma woken_Woken: "woken st = Some (Woken a) \<longleftrightarrow> st = Some (Suspended a) \<or> st = Some (Woken a)"
  by (auto simp: woken_def split: option.splits wait_status.splits)

lemma woken_Returned [simp]: "woken st = Some (Returned b) \<longleftrightarrow> st = Some (Returned b)"
  by (auto simp: woken_def split: option.splits wait_status.splits)

lemma ptrs_ok_init: "ptrs_ok SuccessCondition_ctor"
  by (simp add: ptrs_ok_def SuccessCondition_ctor_def holds_def)

lemma ptrs_ok_step:
  assumes "ptrs_ok s" "step e s = Some s'"
  shows "ptrs_ok s'"
proof (cases e)
  case Acquire
  with assms(2) have "lock s = Some s'" by simp
  from lock_Some[OF this] assms(1) show ?thesis
    by (auto simp: ptrs_ok_def holds_def cur_def less_Suc_eq subset_iff domIff split: option.splits if_splits)
next
  case (Release l b)
  with assms(2) have s': "s' = release l b s" by (simp split: if_splits)
  show ?thesis unfolding s' using assms(1)
    by (auto simp: ptrs_ok_def release_holds release_dom release_waiters_dom release_waiters woken_Woken split: if_splits)
next
  case (Destroy l)
  with assms(2) have s': "s' = Lock_dtor l s" by (simp split: if_splits)
  show ?thesis unfolding s' using assms(1)
    by (auto simp: ptrs_ok_def dtor_holds dtor_dom release_waiters_dom release_waiters woken_Woken split: if_splits)
next
  case (MoveAssign tgt other)
  with assms(2) have s': "s' = Lock_move_assign tgt other s"
    and ex: "locks s tgt \<noteq> None" "locks s other \<noteq> None" by (simp_all split: if_splits)
  show ?thesis unfolding s' using assms(1) ex
    by (auto simp: ptrs_ok_def move_assign_holds move_assign_dom release_waiters_dom release_waiters woken_Woken split: if_splits)
next
  case (MoveConstruct other)
  with assms(2) have s': "s' = Lock_move_ctor other s"
    and ex: "locks s other \<noteq> None" by (simp_all split: if_splits)
  with assms(1) have ne: "other \<noteq> next_lock s"
    by (auto simp: ptrs_ok_def subset_iff domIff)
  show ?thesis unfolding s' using assms(1) ex ne
    by (auto simp: ptrs_ok_def move_ctor_holds move_ctor_dom less_Suc_eq subset_iff domIff split: if_splits)
next
  case WaitStart
  with assms(2) have s': "s' = wait_for_success s" by simp
  show ?thesis unfolding s' using assms(1)
    by (auto simp: ptrs_ok_def holds_def wfs_waiters cur_def less_Suc_eq subset_iff domIff split: if_splits option.splits)
next
  case (Resume w)
  with assms(2) have "resume w s = Some s'" by simp
  from resume_Some[OF this] assms(1) show ?thesis
    by (auto simp: ptrs_ok_def holds_def subset_iff domIff split: if_splits)
qed

lemma card_pred_int: "finite A \<Longrightarrow> l \<in> A \<Longrightarrow> int (card A - Suc 0) = int (card A) - 1"
proof -
  assume "finite A" "l \<in> A"
  then have "card A > 0" by (auto simp: card_gt_0_iff)
  then show ?thesis by simp
qed

lemma card_remove_int:
  "finite A \<Longrightarrow> int (card (A - {l})) = int (card A) - (if l \<in> A then 1 else 0)"
  by (simp add: card_pred_int)

lemma card_move:
  assumes fin: "finite {l. P l}"
  shows "int (card {l. l \<noteq> other \<and> (if l = tgt then P other else P l)}) =
         int (card {l. P l}) - (if P tgt then 1 else 0)"
proof -
  let ?A = "{l. P l}" and ?B = "{l. l \<noteq> other \<and> (if l = tgt then P other else P l)}"
  consider (same) "tgt = other" | (both) "tgt \<noteq> other" "P other" "P tgt"
    | (gain) "tgt \<noteq> other" "P other" "\<not> P tgt" | (none) "tgt \<noteq> other" "\<not> P other"
    by blast
  then show ?thesis
  proof cases
    case same
    then have "?B = ?A - {tgt}" by auto
    with fin show ?thesis by (simp add: card_pred_int)
  next
    case both
    then have "?B = ?A - {other}" by auto
    with fin both show ?thesis by (simp add: card_pred_int)
  next
    case gain
    then have B: "?B = insert tgt (?A - {other})" by auto
    from gain fin have "card ?B = Suc (card (?A - {other}))"
      unfolding B by (subst card_insert_disjoint) auto
    with fin gain show ?thesis by (simp add: card_pred_int)
  next
    case none
    then have "?B = ?A - {tgt}" by auto
    with fin show ?thesis by (simp add: card_pred_int)
  qed
qed

lemma holds_finite: "ptrs_ok s \<Longrightarrow> finite {l. holds s a l}"
proof -
  assume "ptrs_ok s"
  then have "{l. holds s a l} \<subseteq> {..<next_lock s}"
    by (auto simp: ptrs_ok_def holds_def subset_iff domIff split: option.splits)
  then show ?thesis by (rule finite_subset) simp
qed

lemma holders_card: "ptrs_ok s \<Longrightarrow> holders s a = card {l. holds s a l}"
proof -
  assume "ptrs_ok s"
  then have sub: "{l. holds s a l} \<subseteq> {..<next_lock s}"
    by (auto simp: ptrs_ok_def holds_def subset_iff domIff split: option.splits)
  have "card (set (filter (holds s a) [0..<next_lock s])) = holders s a"
    unfolding holders_def by (rule distinct_card) simp
  moreover have "set (filter (holds s a) [0..<next_lock s]) = {l. holds s a l}"
    using sub by auto
  ultimately show ?thesis by simp
qed

lemma counts_ok_step:
  assumes "ptrs_ok s" "counts_ok s" "step e s = Some s'"
  shows "counts_ok s'"
proof (cases e)
  case Acquire
  with assms(3) have "lock s = Some s'" by simp
  note L = lock_Some[OF this]
  have fresh: "\<not> holds s (next_addr s) l" for l
    using assms(1) by (auto simp: ptrs_ok_def)
  have nl: "\<not> holds s a (next_lock s)" for a
    using assms(1) by (auto simp: ptrs_ok_def holds_def subset_iff domIff split: option.splits)
  have H: "{l. holds s' a l} = (if a = cur s then insert (next_lock s) {l. holds s a l} else {l. holds s a l})" for a
    using L nl[of a] by (auto simp: holds_def split: if_splits)
  have C: "int (card {l. holds s' a l}) = int (card {l. holds s a l}) + (if a = cur s then 1 else 0)" for a
    unfolding H using holds_finite[OF assms(1), of a] nl[of a] by auto
  show ?thesis unfolding counts_ok_def
  proof (intro allI impI)
    fix a assume a: "a < next_addr s'"
    show "remaining_locks (heap s' a) = int (card {l. holds s' a l}) \<and> remaining_locks (heap s' a) \<le> INT_MAX"
    proof (cases "sc_wait_state s = None \<and> a = next_addr s")
      case True
      then have "cur s = a" by (simp add: cur_def)
      with True L C[of a] fresh show ?thesis by (simp add: INT_MAX_def)
    next
      case False
      with a L have "a < next_addr s" by (auto split: if_splits)
      with assms(2) have "remaining_locks (heap s a) = int (card {l. holds s a l})"
        "remaining_locks (heap s a) \<le> INT_MAX" by (auto simp: counts_ok_def)
      with False L C[of a] show ?thesis by (auto simp: cur_def split: option.splits)
    qed
  qed
next
  case (Release l b)
  with assms(3) have s': "s' = release l b s" by (simp split: if_splits)
  have "{l'. holds s' a l'} = {l'. holds s a l'} - {l}" for a
    unfolding s' by (auto simp: release_holds)
  then show ?thesis using assms(2) holds_finite[OF assms(1)]
    by (auto simp: counts_ok_def s' release_remaining card_remove_int)
next
  case (Destroy l)
  with assms(3) have s': "s' = Lock_dtor l s" by (simp split: if_splits)
  have "{l'. holds s' a l'} = {l'. holds s a l'} - {l}" for a
    unfolding s' by (auto simp: dtor_holds)
  then show ?thesis using assms(2) holds_finite[OF assms(1)]
    by (auto simp: counts_ok_def s' release_remaining card_remove_int)
next
  case (MoveAssign tgt other)
  with assms(3) have s': "s' = Lock_move_assign tgt other s"
    and ex: "locks s tgt \<noteq> None" "locks s other \<noteq> None" by (simp_all split: if_splits)
  have "int (card {l. holds s' a l}) = int (card {l. holds s a l}) - (if holds s a tgt then 1 else 0)" for a
    unfolding s' move_assign_holds[OF ex(2)]
    by (rule card_move[OF holds_finite[OF assms(1)]])
  then show ?thesis using assms(2)
    by (auto simp: counts_ok_def s' release_remaining)
next
  case (MoveConstruct other)
  with assms(3) have s': "s' = Lock_move_ctor other s"
    and ex: "locks s other \<noteq> None" by (simp_all split: if_splits)
  with assms(1) have ne: "other \<noteq> next_lock s"
    by (auto simp: ptrs_ok_def subset_iff domIff)
  have nl: "\<not> holds s a (next_lock s)" for a
    using assms(1) by (auto simp: ptrs_ok_def holds_def subset_iff domIff split: option.splits)
  have "int (card {l. holds s' a l}) = int (card {l. holds s a l}) - (if holds s a (next_lock s) then 1 else 0)" for a
    unfolding s' move_ctor_holds[OF ex ne]
    by (rule card_move[OF holds_finite[OF assms(1)]])
  then show ?thesis using assms(2) nl
    by (auto simp: counts_ok_def s')
next
  case WaitStart
  with assms(3) have s': "s' = wait_for_success s" by simp
  have hs: "holds (wait_for_success s) a = holds s a" for a
    by (simp add: holds_def fun_eq_iff)
  show ?thesis unfolding counts_ok_def s'
  proof (intro allI impI)
    fix a assume a: "a < next_addr (wait_for_success s)"
    let ?s' = "wait_for_success s"
    show "remaining_locks (heap ?s' a) = int (card {l. holds ?s' a l}) \<and>
          remaining_locks (heap ?s' a) \<le> INT_MAX"
    proof (cases "sc_wait_state s = None \<and> a = next_addr s")
      case True
      have "{l. holds s a l} = {}"
        using True assms(1) by (auto simp: ptrs_ok_def)
      with True show ?thesis by (simp add: wfs_heap INT_MAX_def hs)
    next
      case False
      with a have "a < next_addr s" by (auto split: if_splits)
      with assms(2) False show ?thesis by (auto simp: counts_ok_def wfs_heap hs)
    qed
  qed
next
  case (Resume w)
  with assms(3) have "resume w s = Some s'" by simp
  from resume_Some[OF this] assms(2) show ?thesis
    by (auto simp: counts_ok_def holds_def)
qed

lemma lock_old:
  assumes "lock s = Some s'" "x < next_addr s"
  shows "condition (heap s' x) = condition (heap s x)"
    and "success (heap s' x) = success (heap s x)"
    and "remaining_locks (heap s' x) = remaining_locks (heap s x) + (if sc_wait_state s = Some x then 1 else 0)"
  using lock_Some[OF assms(1)] assms(2) by (simp_all add: cur_def split: option.splits)

lemma lock_new:
  assumes "lock s = Some s'" "sc_wait_state s = None"
  shows "condition (heap s' (next_addr s)) = \<lparr>fired = False, queue = []\<rparr>"
    and "success (heap s' (next_addr s)) = False"
    and "remaining_locks (heap s' (next_addr s)) = 1"
  using lock_Some[OF assms(1)] assms(2) by simp_all

lemma lock_frame:
  assumes "lock s = Some s'"
  shows "waiters s' = waiters s" "next_waiter s' = next_waiter s"
    and "next_addr s' = (if sc_wait_state s = None then Suc (next_addr s) else next_addr s)"
    and "next_lock s' = Suc (next_lock s)"
    and "sc_wait_state s' = Some (cur s)"
    and "locks s' = (locks s)(next_lock s \<mapsto> \<lparr>lock_wait_state = Some (cur s)\<rparr>)"
  using lock_Some[OF assms(1)] by simp_all

lemma queues_okI:
  assumes "\<And>w a. waiters s w = Some (Suspended a) \<Longrightarrow>
             \<not> fired (condition (heap s a)) \<and> w \<in> set (queue (condition (heap s a))) \<and> blocked (heap s a)"
    and "\<And>a w. a < next_addr s \<Longrightarrow> w \<in> set (queue (condition (heap s a))) \<Longrightarrow>
             waiters s w = Some (Suspended a)"
  shows "queues_ok s"
  using assms unfolding queues_ok_def by blast

lemma queues_okD1:
  "queues_ok s \<Longrightarrow> waiters s w = Some (Suspended a) \<Longrightarrow>
     \<not> fired (condition (heap s a)) \<and> w \<in> set (queue (condition (heap s a))) \<and> blocked (heap s a)"
  unfolding queues_ok_def by blast

lemma queues_okD2:
  "queues_ok s \<Longrightarrow> a < next_addr s \<Longrightarrow> w \<in> set (queue (condition (heap s a))) \<Longrightarrow>
     waiters s w = Some (Suspended a)"
  unfolding queues_ok_def by blast

lemma ptrs_ok_waiter:
  "ptrs_ok s \<Longrightarrow> waiters s w = Some (Suspended a) \<or> waiters s w = Some (Woken a) \<Longrightarrow> a < next_addr s"
  unfolding ptrs_ok_def by blast

lemma ptrs_ok_sc: "ptrs_ok s \<Longrightarrow> sc_wait_state s = Some a \<Longrightarrow> a < next_addr s"
  unfolding ptrs_ok_def by blast

lemma ptrs_ok_holds: "ptrs_ok s \<Longrightarrow> holds s a l \<Longrightarrow> a < next_addr s"
  unfolding ptrs_ok_def by blast

lemma ptrs_ok_next_waiter: "ptrs_ok s \<Longrightarrow> waiters s (next_waiter s) = None"
  unfolding ptrs_ok_def by (auto simp: subset_iff domIff)

lemma queues_ok_Acquire:
  assumes P: "ptrs_ok s" and Q: "queues_ok s" and st: "lock s = Some s'"
  shows "queues_ok s'"
proof (rule queues_okI)
  fix w a assume "waiters s' w = Some (Suspended a)"
  then have w: "waiters s w = Some (Suspended a)" by (simp add: lock_frame[OF st])
  with P have a: "a < next_addr s" by (blast intro: ptrs_ok_waiter)
  from queues_okD1[OF Q w] lock_old[OF st a]
  show "\<not> fired (condition (heap s' a)) \<and> w \<in> set (queue (condition (heap s' a))) \<and> blocked (heap s' a)"
    by (simp add: blocked_def)
next
  fix a w assume a: "a < next_addr s'" and w: "w \<in> set (queue (condition (heap s' a)))"
  show "waiters s' w = Some (Suspended a)"
  proof (cases "a < next_addr s")
    case True
    with w lock_old(1)[OF st True] queues_okD2[OF Q True, of w] show ?thesis
      by (simp add: lock_frame[OF st])
  next
    case False
    with a have "sc_wait_state s = None" "a = next_addr s"
      by (auto simp: lock_frame[OF st] split: if_splits)
    with w lock_new(1)[OF st] show ?thesis by simp
  qed
qed

lemma queues_ok_wfs:
  assumes P: "ptrs_ok s" and Q: "queues_ok s"
  shows "queues_ok (wait_for_success s)"
proof (rule queues_okI)
  let ?s' = "wait_for_success s"
  fix w a assume w': "waiters ?s' w = Some (Suspended a)"
  show "\<not> fired (condition (heap ?s' a)) \<and> w \<in> set (queue (condition (heap ?s' a))) \<and> blocked (heap ?s' a)"
  proof (cases "w = next_waiter s")
    case True
    with w' have c: "sc_wait_state s \<noteq> None" "blocked (heap s (cur s))"
        "\<not> fired (condition (heap s (cur s)))" "a = cur s"
      by (auto simp: wfs_waiters split: if_splits)
    then show ?thesis using True
      by (simp add: wfs_heap blocked_def)
  next
    case False
    with w' have w: "waiters s w = Some (Suspended a)" by (simp add: wfs_waiters)
    with P have a: "a < next_addr s" by (blast intro: ptrs_ok_waiter)
    from queues_okD1[OF Q w] a show ?thesis
      by (auto simp add: wfs_heap blocked_def)
  qed
next
  let ?s' = "wait_for_success s"
  fix a w assume a': "a < next_addr ?s'" and w: "w \<in> set (queue (condition (heap ?s' a)))"
  have fresh: "\<not> (sc_wait_state s = None \<and> a = next_addr s)"
    using w by (auto simp: wfs_heap)
  with a' have a: "a < next_addr s" by (auto split: if_splits)
  show "waiters ?s' w = Some (Suspended a)"
  proof (cases "w \<in> set (queue (condition (heap s a)))")
    case True
    from queues_okD2[OF Q a True] ptrs_ok_next_waiter[OF P] show ?thesis
      by (auto simp: wfs_waiters)
  next
    case False
    with w fresh have "w = next_waiter s" "a = cur s" "blocked (heap s a)" "\<not> fired (condition (heap s a))"
      by (auto simp: wfs_heap split: if_splits)
    moreover from this a have "sc_wait_state s \<noteq> None" by (auto simp: cur_def split: option.splits)
    ultimately show ?thesis by (simp add: wfs_waiters)
  qed
qed

lemma unblocks_holds: "unblocks s l b x \<Longrightarrow> holds s x l"
  by (simp add: unblocks_def)

lemma queues_ok_release:
  assumes P: "ptrs_ok s" and Q: "queues_ok s"
  shows "queues_ok (release l b s)"
proof (rule queues_okI)
  let ?s' = "release l b s"
  fix w a assume w': "waiters ?s' w = Some (Suspended a)"
  then have w: "waiters s w = Some (Suspended a)"
    by (auto simp: release_waiters split: if_splits)
  note q = queues_okD1[OF Q w]
  have nu: "\<not> unblocks s l b a"
  proof
    assume "unblocks s l b a"
    with q have "\<exists>x. unblocks s l b x \<and> w \<in> set (queue (condition (heap s x)))" by blast
    with w' show False by (simp add: release_waiters)
  qed
  with q show "\<not> fired (condition (heap ?s' a)) \<and> w \<in> set (queue (condition (heap ?s' a))) \<and> blocked (heap ?s' a)"
    by (auto simp: release_condition release_remaining release_success blocked_def unblocks_def)
next
  let ?s' = "release l b s"
  fix a w assume a: "a < next_addr ?s'" and w': "w \<in> set (queue (condition (heap ?s' a)))"
  then have nu: "\<not> unblocks s l b a" and w: "w \<in> set (queue (condition (heap s a)))"
    by (auto simp: release_condition split: if_splits)
  from a have w0: "waiters s w = Some (Suspended a)"
    using queues_okD2[OF Q _ w] by simp
  have "\<not> (\<exists>x. unblocks s l b x \<and> w \<in> set (queue (condition (heap s x))))"
  proof
    assume "\<exists>x. unblocks s l b x \<and> w \<in> set (queue (condition (heap s x)))"
    then obtain x where x: "unblocks s l b x" "w \<in> set (queue (condition (heap s x)))" by blast
    from x(1) P have "x < next_addr s" by (blast intro: ptrs_ok_holds unblocks_holds)
    from queues_okD2[OF Q this x(2)] w0 have "x = a" by simp
    with x(1) nu show False by simp
  qed
  with w0 show "waiters ?s' w = Some (Suspended a)"
    by (simp add: release_waiters)
qed

lemma queues_ok_cong:
  "waiters s' = waiters s \<Longrightarrow> heap s' = heap s \<Longrightarrow> next_addr s' = next_addr s \<Longrightarrow>
   queues_ok s' = queues_ok s"
  by (simp add: queues_ok_def)

lemma queues_ok_step:
  assumes P: "ptrs_ok s" and Q: "queues_ok s" and st: "step e s = Some s'"
  shows "queues_ok s'"
proof (cases e)
  case Acquire
  with st have "lock s = Some s'" by simp
  then show ?thesis by (rule queues_ok_Acquire[OF P Q])
next
  case (Release l b)
  with st have s': "s' = release l b s" by (simp split: if_splits)
  show ?thesis unfolding s' by (rule queues_ok_release[OF P Q])
next
  case (Destroy l)
  with st have s': "s' = Lock_dtor l s" by (simp split: if_splits)
  have "queues_ok s' = queues_ok (release l False s)"
    unfolding s' by (rule queues_ok_cong) simp_all
  then show ?thesis using queues_ok_release[OF P Q] by simp
next
  case (MoveAssign tgt other)
  with st have s': "s' = Lock_move_assign tgt other s" by (simp split: if_splits)
  have "queues_ok s' = queues_ok (release tgt False s)"
    unfolding s' by (rule queues_ok_cong) simp_all
  then show ?thesis using queues_ok_release[OF P Q] by simp
next
  case (MoveConstruct other)
  with st have s': "s' = Lock_move_ctor other s" by (simp split: if_splits)
  have "queues_ok s' = queues_ok s"
    unfolding s' by (rule queues_ok_cong) simp_all
  then show ?thesis using Q by simp
next
  case WaitStart
  with st have s': "s' = wait_for_success s" by simp
  show ?thesis unfolding s' by (rule queues_ok_wfs[OF P Q])
next
  case (Resume w)
  with st have "resume w s = Some s'" by simp
  from resume_Some[OF this] obtain a where wa: "waiters s w = Some (Woken a)"
    and s': "s' = s\<lparr>waiters := (waiters s)(w \<mapsto> Returned (success (heap s a)))\<rparr>" by blast
  show ?thesis
  proof (rule queues_okI)
    fix w' a' assume "waiters s' w' = Some (Suspended a')"
    then have "waiters s w' = Some (Suspended a')" by (auto simp: s' split: if_splits)
    from queues_okD1[OF Q this]
    show "\<not> fired (condition (heap s' a')) \<and> w' \<in> set (queue (condition (heap s' a'))) \<and> blocked (heap s' a')"
      by (simp add: s')
  next
    fix a' w' assume "a' < next_addr s'" "w' \<in> set (queue (condition (heap s' a')))"
    then have "waiters s w' = Some (Suspended a')" using queues_okD2[OF Q, of a' w'] by (simp add: s')
    with wa show "waiters s' w' = Some (Suspended a')" by (auto simp: s')
  qed
qed

section \<open>Reachable states\<close>

lemma queues_ok_init: "queues_ok SuccessCondition_ctor"
  by (simp add: queues_ok_def SuccessCondition_ctor_def)

lemma counts_ok_init: "counts_ok SuccessCondition_ctor"
  by (simp add: counts_ok_def SuccessCondition_ctor_def)

lemma wf_init: "sys_ok SuccessCondition_ctor"
  by (simp add: sys_ok_def ptrs_ok_init queues_ok_init counts_ok_init)

lemma wf_step: "sys_ok s \<Longrightarrow> step e s = Some s' \<Longrightarrow> sys_ok s'"
  unfolding sys_ok_def by (blast intro: ptrs_ok_step queues_ok_step counts_ok_step)

lemma wf_run: "sys_ok s \<Longrightarrow> run es s = Some s' \<Longrightarrow> sys_ok s'"
proof (induction es arbitrary: s)
  case Nil
  then show ?case by simp
next
  case (Cons e es)
  from Cons.prems(2) obtain s1 where s1: "step e s = Some s1" "run es s1 = Some s'"
    by (auto split: option.splits)
  from wf_step[OF Cons.prems(1) s1(1)] s1(2) show ?case by (rule Cons.IH)
qed

lemma reachable_wf: "run es SuccessCondition_ctor = Some s \<Longrightarrow> sys_ok s"
  by (rule wf_run[OF wf_init])

section \<open>Steps and runs\<close>

lemma step_remaining:
  assumes st: "step e s = Some s'" and a: "a < next_addr s"
  shows "remaining_locks (heap s' a) =
           remaining_locks (heap s a) + (if e = Acquire \<and> sc_wait_state s = Some a then 1 else 0)
             - (if consumes e s a then 1 else 0)"
proof (cases e)
  case Acquire
  with st have "lock s = Some s'" by simp
  from lock_old(3)[OF this a] Acquire show ?thesis by (simp add: consumes_def)
next
  case (Release l b)
  with st show ?thesis by (auto simp: consumes_def release_remaining split: if_splits)
next
  case (Destroy l)
  with st show ?thesis by (auto simp: consumes_def release_remaining split: if_splits)
next
  case (MoveAssign tgt other)
  with st show ?thesis by (auto simp: consumes_def release_remaining split: if_splits)
next
  case (MoveConstruct other)
  with st show ?thesis by (auto simp: consumes_def split: if_splits)
next
  case WaitStart
  with st a show ?thesis by (auto simp: consumes_def wfs_heap)
next
  case (Resume w)
  with st have "resume w s = Some s'" by simp
  from resume_Some[OF this] Resume show ?thesis by (auto simp: consumes_def)
qed

lemma step_next_addr: "step e s = Some s' \<Longrightarrow> next_addr s \<le> next_addr s'"
proof (cases e)
  case Acquire
  assume "step e s = Some s'"
  with Acquire have "lock s = Some s'" by simp
  from lock_frame(3)[OF this] show ?thesis by simp
next
  case (Resume w)
  assume "step e s = Some s'"
  with Resume have "resume w s = Some s'" by simp
  from resume_Some[OF this] show ?thesis by auto
qed (auto split: if_splits)

lemma step_success_mono:
  assumes st: "step e s = Some s'" and a: "a < next_addr s" and su: "success (heap s a)"
  shows "success (heap s' a)"
proof (cases e)
  case Acquire
  with st have "lock s = Some s'" by simp
  from lock_old(2)[OF this a] su show ?thesis by simp
next
  case WaitStart
  with st a su show ?thesis by (auto simp: wfs_heap)
next
  case (Resume w)
  with st have "resume w s = Some s'" by simp
  from resume_Some[OF this] su show ?thesis by auto
qed (use st su in \<open>auto simp: release_success split: if_splits\<close>)

lemma run_success_mono:
  "run es s = Some s' \<Longrightarrow> a < next_addr s \<Longrightarrow> success (heap s a) \<Longrightarrow>
   a < next_addr s' \<and> success (heap s' a)"
proof (induction es arbitrary: s)
  case Nil
  then show ?case by simp
next
  case (Cons e es)
  from Cons.prems(1) obtain s1 where s1: "step e s = Some s1" "run es s1 = Some s'"
    by (auto split: option.splits)
  from step_next_addr[OF s1(1)] Cons.prems(2) have "a < next_addr s1" by simp
  moreover from step_success_mono[OF s1(1) Cons.prems(2,3)] have "success (heap s1 a)" .
  ultimately show ?case using s1(2) by (rule Cons.IH[rotated])
qed

lemma step_waiter_progress:
  assumes P: "ptrs_ok s" and st: "step e s = Some s'"
  shows "waiters s w = Some (Returned b) \<Longrightarrow> waiters s' w = Some (Returned b)"
    and "waiters s w = Some (Woken a) \<Longrightarrow>
           waiters s' w = Some (Woken a) \<or> waiters s' w = Some (Returned (success (heap s a)))"
proof -
  have nw: "waiters s (next_waiter s) = None" by (rule ptrs_ok_next_waiter[OF P])
  have rel: "woken (Some (Returned b)) = Some (Returned b)" "woken (Some (Woken a)) = Some (Woken a)"
    by (simp_all add: woken_def)
  show "waiters s w = Some (Returned b) \<Longrightarrow> waiters s' w = Some (Returned b)"
  proof (cases e)
    case Acquire
    assume w: "waiters s w = Some (Returned b)"
    from Acquire st have "lock s = Some s'" by simp
    from lock_frame(1)[OF this] w show ?thesis by simp
  next
    case WaitStart
    assume w: "waiters s w = Some (Returned b)"
    with WaitStart st nw show ?thesis by (auto simp: wfs_waiters)
  next
    case (Resume w')
    assume w: "waiters s w = Some (Returned b)"
    from Resume st have "resume w' s = Some s'" by simp
    from resume_Some[OF this] w show ?thesis by auto
  qed (use st rel in \<open>auto simp: release_waiters split: if_splits\<close>)
  show "waiters s w = Some (Woken a) \<Longrightarrow>
           waiters s' w = Some (Woken a) \<or> waiters s' w = Some (Returned (success (heap s a)))"
  proof (cases e)
    case Acquire
    assume w: "waiters s w = Some (Woken a)"
    from Acquire st have "lock s = Some s'" by simp
    from lock_frame(1)[OF this] w show ?thesis by simp
  next
    case WaitStart
    assume w: "waiters s w = Some (Woken a)"
    with WaitStart st nw show ?thesis by (auto simp: wfs_waiters)
  next
    case (Resume w')
    assume w: "waiters s w = Some (Woken a)"
    from Resume st have "resume w' s = Some s'" by simp
    from resume_Some[OF this] w show ?thesis by auto
  qed (use st rel in \<open>auto simp: release_waiters split: if_splits\<close>)
qed

lemma run_resolved:
  "run es s = Some s' \<Longrightarrow> sys_ok s \<Longrightarrow> a < next_addr s \<Longrightarrow> success (heap s a) \<Longrightarrow>
   resolved s a w \<Longrightarrow> resolved s' a w"
proof (induction es arbitrary: s)
  case Nil
  then show ?case by simp
next
  case (Cons e es)
  from Cons.prems(1) obtain s1 where s1: "step e s = Some s1" "run es s1 = Some s'"
    by (auto split: option.splits)
  from Cons.prems(2) have P: "ptrs_ok s" by (simp add: sys_ok_def)
  have "sys_ok s1" by (rule wf_step[OF Cons.prems(2) s1(1)])
  moreover from step_next_addr[OF s1(1)] Cons.prems(3) have "a < next_addr s1" by simp
  moreover from step_success_mono[OF s1(1) Cons.prems(3,4)] have "success (heap s1 a)" .
  moreover have "resolved s1 a w"
    using step_waiter_progress[OF P s1(1), of w] Cons.prems(4,5)
    by (auto simp: resolved_def)
  ultimately show ?case using s1(2) Cons.IH by blast
qed

lemma release_true_resolves:
  assumes ok: "sys_ok s" and h: "holds s a l"
    and w: "waiters s w = Some (Suspended a) \<or> waiters s w = Some (Woken a)"
  shows "resolved (release l True s) a w"
proof -
  from ok have Q: "queues_ok s" by (simp add: sys_ok_def)
  from w show ?thesis
  proof
    assume su: "waiters s w = Some (Suspended a)"
    from queues_okD1[OF Q su] h have "unblocks s l True a \<and> w \<in> set (queue (condition (heap s a)))"
      by (simp add: unblocks_def)
    then have "\<exists>x. unblocks s l True x \<and> w \<in> set (queue (condition (heap s x)))" by blast
    with su show ?thesis by (simp add: resolved_def release_waiters woken_def)
  next
    assume "waiters s w = Some (Woken a)"
    then show ?thesis by (simp add: resolved_def release_waiters woken_def)
  qed
qed

lemma wfs_returns_success:
  "sc_wait_state s = Some a \<Longrightarrow> success (heap s a) \<Longrightarrow>
   waiters (wait_for_success s) (next_waiter s) = Some (Returned True)"
  by (simp add: wfs_waiters cur_def blocked_def)

lemma resume_woken:
  "waiters s w = Some (Woken a) \<Longrightarrow>
   resume w s = Some (s\<lparr>waiters := (waiters s)(w \<mapsto> Returned (success (heap s a)))\<rparr>)"
  by (simp add: resume_def)

lemma step_success_origin:
  assumes st: "step e s = Some s'" and su: "success (heap s' a)"
  shows "success (heap s a) \<or> (case e of Release l b \<Rightarrow> b \<and> holds s a l | _ \<Rightarrow> False)"
proof (cases e)
  case Acquire
  with st have "lock s = Some s'" by simp
  from lock_Some[OF this] su show ?thesis by (auto split: if_splits)
next
  case WaitStart
  with st su show ?thesis by (auto simp: wfs_heap split: if_splits)
next
  case (Resume w)
  with st have "resume w s = Some s'" by simp
  from resume_Some[OF this] su show ?thesis by auto
qed (use st su in \<open>auto simp: release_success split: if_splits\<close>)

lemma step_unresolved_or_failed:
  assumes P: "ptrs_ok s" and st: "step e s = Some s'" and ns: "\<not> success (heap s a)"
    and u: "unresolved_or_failed s a w"
  shows "unresolved_or_failed s' a w"
proof -
  have nw: "waiters s (next_waiter s) = None" by (rule ptrs_ok_next_waiter[OF P])
  have rel: "unresolved_or_failed (release l b s) a w" for l b
    using u by (auto simp: unresolved_or_failed_def release_waiters woken_def)
  show ?thesis
  proof (cases e)
    case Acquire
    with st have "lock s = Some s'" by simp
    from lock_frame(1)[OF this] u show ?thesis by (simp add: unresolved_or_failed_def)
  next
    case (Release l b)
    with st rel show ?thesis by (auto split: if_splits)
  next
    case (Destroy l)
    with st rel[of l False] show ?thesis
      by (auto simp: unresolved_or_failed_def split: if_splits)
  next
    case (MoveAssign tgt other)
    with st rel[of tgt False] show ?thesis
      by (auto simp: unresolved_or_failed_def split: if_splits)
  next
    case (MoveConstruct other)
    with st u show ?thesis by (auto simp: unresolved_or_failed_def split: if_splits)
  next
    case WaitStart
    with st have s': "s' = wait_for_success s" by simp
    from u nw have "w \<noteq> next_waiter s" by (auto simp: unresolved_or_failed_def)
    with u show ?thesis unfolding s' by (simp add: unresolved_or_failed_def wfs_waiters)
  next
    case (Resume w')
    with st have "resume w' s = Some s'" by simp
    from resume_Some[OF this] u ns show ?thesis
      by (auto simp: unresolved_or_failed_def split: if_splits)
  qed
qed

lemma run_unresolved_or_failed:
  "run es s = Some s' \<Longrightarrow> sys_ok s \<Longrightarrow> \<not> success (heap s a) \<Longrightarrow> \<not> succeeds_on a es s \<Longrightarrow>
   (unresolved_or_failed s a w \<longrightarrow> unresolved_or_failed s' a w) \<and> \<not> success (heap s' a)"
proof (induction es arbitrary: s)
  case Nil
  then show ?case by simp
next
  case (Cons e es)
  from Cons.prems(1) obtain s1 where s1: "step e s = Some s1" "run es s1 = Some s'"
    by (auto split: option.splits)
  from Cons.prems(2) have P: "ptrs_ok s" by (simp add: sys_ok_def)
  from Cons.prems(4) s1(1)
  have ne: "\<not> (case e of Release l b \<Rightarrow> b \<and> holds s a l | _ \<Rightarrow> False)"
    and nes: "\<not> succeeds_on a es s1" by simp_all
  have ok1: "sys_ok s1" by (rule wf_step[OF Cons.prems(2) s1(1)])
  have ns1: "\<not> success (heap s1 a)"
    using step_success_origin[OF s1(1), of a] Cons.prems(3) ne by blast
  have "unresolved_or_failed s a w \<longrightarrow> unresolved_or_failed s1 a w"
    using step_unresolved_or_failed[OF P s1(1) Cons.prems(3)] by blast
  with Cons.IH[OF s1(2) ok1 ns1 nes] show ?case by blast
qed

lemma suspended_has_holder:
  assumes ok: "sys_ok s" and w: "waiters s w = Some (Suspended a)"
  shows "0 < holders s a"
proof -
  from ok have P: "ptrs_ok s" and Q: "queues_ok s" and C: "counts_ok s"
    by (simp_all add: sys_ok_def)
  have a: "a < next_addr s" using ptrs_ok_waiter[OF P] w by blast
  from queues_okD1[OF Q w] have "0 < remaining_locks (heap s a)" by (simp add: blocked_def)
  moreover from C a have "remaining_locks (heap s a) = int (holders s a)"
    by (simp add: counts_ok_def holders_card[OF P])
  ultimately show ?thesis by simp
qed

lemma no_acquire_step:
  "step e s = Some s' \<Longrightarrow> e \<noteq> Acquire \<Longrightarrow> sc_wait_state s = None \<Longrightarrow> sc_wait_state s' = None"
proof (cases e)
  case (Resume w)
  assume "step e s = Some s'" "sc_wait_state s = None"
  with Resume resume_Some[of w s s'] show ?thesis by auto
qed (auto split: if_splits)

lemma no_acquire_run:
  "run es s = Some s' \<Longrightarrow> Acquire \<notin> set es \<Longrightarrow> sc_wait_state s = None \<Longrightarrow> sc_wait_state s' = None"
proof (induction es arbitrary: s)
  case Nil
  then show ?case by simp
next
  case (Cons e es)
  from Cons.prems(1) obtain s1 where s1: "step e s = Some s1" "run es s1 = Some s'"
    by (auto split: option.splits)
  from Cons.prems(2) have "e \<noteq> Acquire" "Acquire \<notin> set es" by auto
  with no_acquire_step[OF s1(1) _ Cons.prems(3)] s1(2) show ?case using Cons.IH by blast
qed

lemma step_keeps_sc:
  "step e s = Some s' \<Longrightarrow> e \<noteq> WaitStart \<Longrightarrow> sc_wait_state s = Some a \<Longrightarrow> sc_wait_state s' = Some a"
proof (cases e)
  case Acquire
  assume "step e s = Some s'" "sc_wait_state s = Some a"
  with Acquire lock_frame(5)[of s s'] show ?thesis by (simp add: cur_def)
next
  case (Resume w)
  assume "step e s = Some s'" "sc_wait_state s = Some a"
  with Resume resume_Some[of w s s'] show ?thesis by auto
qed (auto split: if_splits)

lemma run_keeps_sc:
  "run es s = Some s' \<Longrightarrow> WaitStart \<notin> set es \<Longrightarrow> sc_wait_state s = Some a \<Longrightarrow> sc_wait_state s' = Some a"
proof (induction es arbitrary: s)
  case Nil
  then show ?case by simp
next
  case (Cons e es)
  from Cons.prems(1) obtain s1 where s1: "step e s = Some s1" "run es s1 = Some s'"
    by (auto split: option.splits)
  from Cons.prems(2) have "e \<noteq> WaitStart" "WaitStart \<notin> set es" by auto
  with step_keeps_sc[OF s1(1) _ Cons.prems(3)] s1(2) show ?case using Cons.IH by blast
qed

section \<open>Results of the host connector\<close>

lemma first_recorded_source:
  "first_recorded (map f addrs) = Some c \<Longrightarrow> \<exists>addr \<in> set addrs. f addr = Some c"
proof (induction addrs)
  case Nil
  then show ?case by simp
next
  case (Cons x xs)
  then show ?case by (cases "f x") auto
qed

lemma endpoint_attempt_Some:
  "endpoint_attempt open_transport cancel_fired addr = Some c \<Longrightarrow>
   \<not> cancel_fired \<and> open_transport addr = Inr c"
  by (auto simp: endpoint_attempt_def split: if_splits sum.splits)

section \<open>Evaluation of the example runs\<close>

lemmas op_defs = lock_def Lock_ctor_def ensure_wait_state_def make_shared_def release_def
  notify_def wait_def wake_def woken_def Lock_move_assign_def Lock_move_ctor_def Lock_dtor_def
  wait_for_success_def resume_def blocked_def WaitState_ctor_def SuccessCondition_ctor_def
  INT_MAX_def Let_def

lemma locked1_run: "run [Acquire] SuccessCondition_ctor = Some locked1"
  by (simp add: locked1_def op_defs)

lemma finished1_run: "run [Release 0 True, Resume 0] (wait_for_success locked1) = Some finished1"
  by (simp add: finished1_def locked1_def op_defs)

lemma finished1_waiter: "waiters finished1 0 = Some (Returned True)"
  by (simp add: finished1_def locked1_def op_defs)

lemma locked2_run: "run [Acquire, Acquire] SuccessCondition_ctor = Some locked2"
  by (simp add: locked2_def op_defs)

lemma locked2_holds: "holds locked2 0 0"
  by (simp add: locked2_def op_defs holds_def)

lemma locked2_sc: "sc_wait_state locked2 = Some 0"
  by (simp add: locked2_def op_defs)

lemma locked2_addr: "0 < next_addr locked2"
  by (simp add: locked2_def op_defs)

lemma locked2_lock0: "locks locked2 0 \<noteq> None"
  by (simp add: locked2_def op_defs)

lemma locked2_lock1: "locks locked2 1 \<noteq> None"
  by (simp add: locked2_def op_defs)

lemma locked2_remaining: "remaining_locks (heap locked2 0) = 2"
  by (simp add: locked2_def op_defs)

lemma locked2_no_success: "\<not> succeeds_on 0 [Acquire, Acquire] SuccessCondition_ctor"
  by (simp add: op_defs holds_def)

lemma locked2_release: "step (Release 0 False) locked2 = Some (release 0 False locked2)"
  by (simp add: locked2_def op_defs)

lemma locked2_lock: "step Acquire locked2 \<noteq> None"
  by (simp add: locked2_def op_defs)

lemma locked2_won_run: "run [Release 1 False] (release 0 True locked2) = Some locked2_won"
  by (simp add: locked2_won_def locked2_def op_defs)

lemma locked2_won_sc: "sc_wait_state locked2_won = Some 0"
  by (simp add: locked2_won_def locked2_def op_defs)

lemma locked2_first_addr: "0 < next_addr (release 0 True locked2)"
  by (simp add: locked2_def op_defs)

lemma locked2_first_success: "success (heap (release 0 True locked2) 0)"
  by (simp add: locked2_def op_defs)

lemma locked2_failed_run: "run [Release 0 False, Destroy 1] locked2 = Some locked2_failed"
  by (simp add: locked2_failed_def locked2_def op_defs)

lemma locked2_failed_no_success: "\<not> succeeds_on 0 [Release 0 False, Destroy 1] locked2"
  by (simp add: locked2_def op_defs holds_def)

lemma locked2_failed_sc: "sc_wait_state locked2_failed = Some 0"
  by (simp add: locked2_failed_def locked2_def op_defs)

lemma locked2_failed_next_lock: "next_lock locked2_failed = 2"
  by (simp add: locked2_failed_def locked2_def op_defs)

lemma locked2_failed_holders: "holders locked2_failed 0 = 0"
  by (simp add: holders_def locked2_failed_next_lock upt_rec)
     (simp add: locked2_failed_def locked2_def op_defs holds_def)

lemma moved2_remaining: "remaining_locks (heap moved2 0) = 1"
  by (simp add: moved2_def locked2_def op_defs)

lemma moved2_holds: "holds moved2 0 0"
  by (simp add: moved2_def locked2_def op_defs holds_def)

lemma pending2_run: "run [Acquire, Acquire, WaitStart] SuccessCondition_ctor = Some pending2"
  by (simp add: pending2_def op_defs)

lemma pending2_no_success: "\<not> succeeds_on 0 [Acquire, Acquire, WaitStart] SuccessCondition_ctor"
  by (simp add: op_defs holds_def)

lemma pending2_waiter: "waiters pending2 0 = Some (Suspended 0)"
  by (simp add: pending2_def op_defs)

lemma pending2_failed_run: "run [Release 0 False, Destroy 1] pending2 = Some pending2_failed"
  by (simp add: pending2_failed_def pending2_def op_defs)

lemma pending2_failed_no_success: "\<not> succeeds_on 0 [Release 0 False, Destroy 1] pending2"
  by (simp add: pending2_def op_defs holds_def)

lemma pending2_failed_waiter: "waiters pending2_failed 0 = Some (Woken 0)"
  by (simp add: pending2_failed_def pending2_def op_defs)

lemma pending3_run:
  "run [Acquire, Acquire, Acquire, WaitStart] SuccessCondition_ctor = Some pending3"
  by (simp add: pending3_def op_defs)

lemma pending3_holds: "holds pending3 0 1"
  by (simp add: pending3_def op_defs holds_def)

lemma pending3_waiter: "waiters pending3 0 = Some (Suspended 0)"
  by (simp add: pending3_def op_defs)

lemma pending3_first_addr: "0 < next_addr (release 1 True pending3)"
  by (simp add: pending3_def op_defs)

lemma pending3_first_success: "success (heap (release 1 True pending3) 0)"
  by (simp add: pending3_def op_defs)

lemma pending3_won_run: "run [Release 0 False] (release 1 True pending3) = Some pending3_won"
  by (simp add: pending3_won_def pending3_def op_defs)

lemma pending3_won_waiter: "waiters pending3_won 0 = Some (Woken 0)"
  by (simp add: pending3_won_def pending3_def op_defs)

lemma pending3_won_next_lock: "next_lock pending3_won = 3"
  by (simp add: pending3_won_def pending3_def op_defs)

lemma pending3_won_holders: "holders pending3_won 0 = 1"
  by (simp add: holders_def pending3_won_next_lock upt_rec)
     (simp add: pending3_won_def pending3_def op_defs holds_def)

lemma moved3_run: "run moves_trace SuccessCondition_ctor = Some moved3"
  by (simp add: moved3_def moves_trace_def op_defs)

lemma moved3_addr: "0 < next_addr moved3"
  by (simp add: moved3_def moves_trace_def op_defs)

lemma moved3_next_lock: "next_lock moved3 = 4"
  by (simp add: moved3_def moves_trace_def op_defs)

lemma moved3_holders: "holders moved3 0 = 1"
  by (simp add: holders_def moved3_next_lock upt_rec)
     (simp add: moved3_def moves_trace_def op_defs holds_def)

lemma moved3_holds: "holds moved3 0 3" "\<not> holds moved3 0 2"
  by (simp_all add: moved3_def moves_trace_def op_defs holds_def)

lemma moved3_destroy: "step (Destroy 3) moved3 = Some (Lock_dtor 3 moved3)"
  by (simp add: moved3_def moves_trace_def op_defs)

lemma moved3_release: "step (Release 2 True) moved3 = Some (release 2 True moved3)"
  by (simp add: moved3_def moves_trace_def op_defs)

lemma waited2_run: "run [WaitStart, WaitStart] SuccessCondition_ctor = Some waited2"
  by (simp add: waited2_def op_defs)

text \<open>
  A race whose locks were all released before a further lock was acquired has a fired
  condition: with the condition variable as the spec describes it, a wait on such a race
  returns at once although the new lock is still held.
\<close>

lemma refilled_run:
  "run [Acquire, Release 0 False, Acquire, WaitStart] SuccessCondition_ctor = Some refilled"
  by (simp add: refilled_def op_defs)

lemma refilled_returns_at_once:
  "holds refilled 0 1 \<and> waiters refilled 0 = Some (Returned False)"
  by (simp add: refilled_def op_defs holds_def)

lemma example_connect:
  "connect_to_host example_resolve example_open False ''example.org'' ''443'' = Inr 7"
  by (simp add: connect_to_host_def example_resolve_def example_open_def endpoint_attempt_def)

lemma example_all_fail:
  "connect_to_host example_resolve (\<lambda>_. Inl ConnectError) False ''example.org'' ''443'' =
     Inl ConnectionFailed"
  by (simp add: connect_to_host_def example_resolve_def endpoint_attempt_def)

lemma example_cancelled:
  "connect_to_host example_resolve example_open True ''example.org'' ''443'' = Inl Cancelled"
  by (simp add: connect_to_host_def example_resolve_def endpoint_attempt_def)

lemma example_unresolved:
  "connect_to_host example_resolve example_open False ''nowhere'' ''443'' = Inl ResolutionFailure"
  by (simp add: connect_to_host_def example_resolve_def)

section \<open>Properties of the coordinator and of the connector\<close>

text \<open>
  C4. Every lock accounts for exactly one unit of \<^verbatim>\<open>remaining_locks\<close>: in every
  reachable state the counter of a race equals the number of locks that still hold the
  race, and a step changes the counter by plus one for an acquisition on the race and by
  minus one exactly when the step consumes a lock that holds the race (explicit release,
  destruction, or being the overwritten target of a move assignment). A second release,
  the release or destruction of a moved-from lock, and a move construction change nothing.
\<close>

theorem lock_decrements_exactly_once:
  assumes "run es SuccessCondition_ctor = Some s" and "a < next_addr s"
  shows "remaining_locks (heap s a) = int (holders s a) \<and>
         (\<forall>e s'. step e s = Some s' \<longrightarrow>
            remaining_locks (heap s' a) =
              remaining_locks (heap s a)
                + (if e = Acquire \<and> sc_wait_state s = Some a then 1 else 0)
                - (if consumes e s a then 1 else 0))"
proof -
  from reachable_wf[OF assms(1)] have P: "ptrs_ok s" and C: "counts_ok s"
    by (simp_all add: sys_ok_def)
  from C assms(2) have "remaining_locks (heap s a) = int (holders s a)"
    by (simp add: counts_ok_def holders_card[OF P])
  moreover have "\<forall>e s'. step e s = Some s' \<longrightarrow>
            remaining_locks (heap s' a) =
              remaining_locks (heap s a)
                + (if e = Acquire \<and> sc_wait_state s = Some a then 1 else 0)
                - (if consumes e s a then 1 else 0)"
    using step_remaining[OF _ assms(2)] by blast
  ultimately show ?thesis by blast
qed

theorem lock_decrements_exactly_once_witness:
  "run moves_trace SuccessCondition_ctor = Some moved3 \<and>
   0 < next_addr moved3 \<and>
   holders moved3 0 = 1 \<and>
   remaining_locks (heap moved3 0) = 1 \<and>
   step (Destroy 3) moved3 = Some (Lock_dtor 3 moved3) \<and>
   remaining_locks (heap (Lock_dtor 3 moved3) 0) = 0 \<and>
   step (Release 2 True) moved3 = Some (release 2 True moved3) \<and>
   remaining_locks (heap (release 2 True moved3) 0) = 1"
proof -
  note inst = lock_decrements_exactly_once[OF moved3_run moved3_addr]
  from inst have r: "remaining_locks (heap moved3 0) = 1"
    by (simp add: moved3_holders)
  from inst moved3_destroy
  have "remaining_locks (heap (Lock_dtor 3 moved3) 0) =
          remaining_locks (heap moved3 0) + (if Destroy 3 = Acquire \<and> sc_wait_state moved3 = Some 0 then 1 else 0)
            - (if consumes (Destroy 3) moved3 0 then 1 else 0)"
    by blast
  with r moved3_holds have d: "remaining_locks (heap (Lock_dtor 3 moved3) 0) = 0"
    by (simp add: consumes_def)
  from inst moved3_release
  have "remaining_locks (heap (release 2 True moved3) 0) =
          remaining_locks (heap moved3 0) + (if Release 2 True = Acquire \<and> sc_wait_state moved3 = Some 0 then 1 else 0)
            - (if consumes (Release 2 True) moved3 0 then 1 else 0)"
    by blast
  with r moved3_holds have e: "remaining_locks (heap (release 2 True moved3) 0) = 1"
    by (simp add: consumes_def)
  from r d e moved3_run moved3_addr moved3_holders moved3_destroy moved3_release
  show ?thesis by blast
qed

text \<open>
  C1. From any reachable state, once a lock that holds the race at \<open>a\<close> is consumed by
  \<^verbatim>\<open>release(true)\<close>, then whatever happens afterwards and however many other locks
  of the race are still held: the race's flag stays set, every call of
  \<^verbatim>\<open>wait_for_success\<close> that was pending on the race has been woken and is either
  waiting for its scheduling turn or has returned true, its resumption returns true, and
  a call made while the coordinator still refers to the race returns true at once.
\<close>

theorem first_success_resolves_wait:
  assumes "run es0 SuccessCondition_ctor = Some s" and "holds s a l"
    and "run es (release l True s) = Some s'"
  shows "success (heap s' a) \<and>
         (\<forall>w. waiters s w = Some (Suspended a) \<or> waiters s w = Some (Woken a) \<longrightarrow>
              waiters s' w = Some (Woken a) \<or> waiters s' w = Some (Returned True)) \<and>
         (\<forall>w. waiters s' w = Some (Woken a) \<longrightarrow>
              resume w s' = Some (s'\<lparr>waiters := (waiters s')(w \<mapsto> Returned True)\<rparr>)) \<and>
         (sc_wait_state s' = Some a \<longrightarrow>
              waiters (wait_for_success s') (next_waiter s') = Some (Returned True))"
proof -
  let ?s1 = "release l True s"
  have ok: "sys_ok s" by (rule reachable_wf[OF assms(1)])
  then have P: "ptrs_ok s" by (simp add: sys_ok_def)
  have a: "a < next_addr s" by (rule ptrs_ok_holds[OF P assms(2)])
  from assms(2) have ex: "locks s l \<noteq> None" by (auto simp: holds_def split: option.splits)
  then have st: "step (Release l True) s = Some ?s1" by simp
  have ok1: "sys_ok ?s1" by (rule wf_step[OF ok st])
  have a1: "a < next_addr ?s1" using a by simp
  have su1: "success (heap ?s1 a)" using assms(2) by (simp add: release_success)
  from run_success_mono[OF assms(3) a1 su1] have su': "success (heap s' a)" by simp
  have pend: "resolved s' a w"
    if "waiters s w = Some (Suspended a) \<or> waiters s w = Some (Woken a)" for w
    using run_resolved[OF assms(3) ok1 a1 su1 release_true_resolves[OF ok assms(2) that]] .
  have res: "resume w s' = Some (s'\<lparr>waiters := (waiters s')(w \<mapsto> Returned True)\<rparr>)"
    if "waiters s' w = Some (Woken a)" for w
    using resume_woken[OF that] su' by simp
  show ?thesis
    using su' pend res wfs_returns_success[of s' a] by (simp add: resolved_def)
qed

theorem first_success_resolves_wait_witness:
  "run [Acquire, Acquire, Acquire, WaitStart] SuccessCondition_ctor = Some pending3 \<and>
   holds pending3 0 1 \<and>
   run [Release 0 False] (release 1 True pending3) = Some pending3_won \<and>
   waiters pending3 0 = Some (Suspended 0) \<and>
   waiters pending3_won 0 = Some (Woken 0) \<and>
   holders pending3_won 0 = 1 \<and>
   success (heap pending3_won 0) \<and>
   resume 0 pending3_won =
     Some (pending3_won\<lparr>waiters := (waiters pending3_won)(0 \<mapsto> Returned True)\<rparr>) \<and>
   run [Acquire, Acquire] SuccessCondition_ctor = Some locked2 \<and>
   holds locked2 0 0 \<and>
   run [Release 1 False] (release 0 True locked2) = Some locked2_won \<and>
   sc_wait_state locked2_won = Some 0 \<and>
   waiters (wait_for_success locked2_won) (next_waiter locked2_won) = Some (Returned True)"
proof -
  from first_success_resolves_wait[OF pending3_run pending3_holds pending3_won_run]
    pending3_won_waiter
  have a: "success (heap pending3_won 0) \<and>
      resume 0 pending3_won =
        Some (pending3_won\<lparr>waiters := (waiters pending3_won)(0 \<mapsto> Returned True)\<rparr>)"
    by blast
  from first_success_resolves_wait[OF locked2_run locked2_holds locked2_won_run] locked2_won_sc
  have b: "waiters (wait_for_success locked2_won) (next_waiter locked2_won) = Some (Returned True)"
    by blast
  from a b pending3_run pending3_holds pending3_won_run pending3_waiter pending3_won_waiter
    pending3_won_holders locked2_run locked2_holds locked2_won_run locked2_won_sc
  show ?thesis by blast
qed

text \<open>
  C2. Take a race \<open>a\<close> and a run in which no lock that holds \<open>a\<close> is ever released with
  success, so that every lock of the race is consumed by \<^verbatim>\<open>release(false)\<close>, by its
  destructor or by being overwritten, or is still held. Then the race's flag is never
  set; a call of \<^verbatim>\<open>wait_for_success\<close> that was pending on the race is still
  suspended only while some lock of the race is held, and is otherwise woken or has
  returned false; the resumption of a woken waiter returns false; and a call made once
  every lock of the coordinator's current race is consumed returns false at once.
\<close>

theorem all_failed_resolves_false:
  assumes "run es1 SuccessCondition_ctor = Some s1" and "\<not> succeeds_on a es1 SuccessCondition_ctor"
    and "run es2 s1 = Some s" and "\<not> succeeds_on a es2 s1"
  shows "\<not> success (heap s a) \<and>
         (\<forall>w. waiters s1 w = Some (Suspended a) \<or> waiters s1 w = Some (Woken a) \<longrightarrow>
            waiters s w = Some (Suspended a) \<and> 0 < holders s a \<or>
            waiters s w = Some (Woken a) \<or> waiters s w = Some (Returned False)) \<and>
         (\<forall>w. waiters s w = Some (Woken a) \<longrightarrow>
            resume w s = Some (s\<lparr>waiters := (waiters s)(w \<mapsto> Returned False)\<rparr>)) \<and>
         (sc_wait_state s = Some a \<and> holders s a = 0 \<longrightarrow>
            waiters (wait_for_success s) (next_waiter s) = Some (Returned False))"
proof -
  have ok0: "sys_ok SuccessCondition_ctor" by (rule wf_init)
  have ns0: "\<not> success (heap SuccessCondition_ctor a)"
    by (simp add: SuccessCondition_ctor_def WaitState_ctor_def)
  have ok1: "sys_ok s1" by (rule reachable_wf[OF assms(1)])
  from run_unresolved_or_failed[OF assms(1) ok0 ns0 assms(2)]
  have ns1: "\<not> success (heap s1 a)" by simp
  have ok: "sys_ok s" by (rule wf_run[OF ok1 assms(3)])
  from run_unresolved_or_failed[OF assms(3) ok1 ns1 assms(4)]
  have ns: "\<not> success (heap s a)"
    and keep: "\<And>w. unresolved_or_failed s1 a w \<Longrightarrow> unresolved_or_failed s a w" by blast+
  have 2: "\<forall>w. waiters s1 w = Some (Suspended a) \<or> waiters s1 w = Some (Woken a) \<longrightarrow>
            waiters s w = Some (Suspended a) \<and> 0 < holders s a \<or>
            waiters s w = Some (Woken a) \<or> waiters s w = Some (Returned False)"
  proof (intro allI impI)
    fix w assume "waiters s1 w = Some (Suspended a) \<or> waiters s1 w = Some (Woken a)"
    then have "unresolved_or_failed s1 a w" by (auto simp: unresolved_or_failed_def)
    from keep[OF this] suspended_has_holder[OF ok, of w a]
    show "waiters s w = Some (Suspended a) \<and> 0 < holders s a \<or>
            waiters s w = Some (Woken a) \<or> waiters s w = Some (Returned False)"
      by (auto simp: unresolved_or_failed_def)
  qed
  have 3: "\<forall>w. waiters s w = Some (Woken a) \<longrightarrow>
            resume w s = Some (s\<lparr>waiters := (waiters s)(w \<mapsto> Returned False)\<rparr>)"
    using resume_woken[of s _ a] ns by simp
  have 4: "sc_wait_state s = Some a \<and> holders s a = 0 \<longrightarrow>
            waiters (wait_for_success s) (next_waiter s) = Some (Returned False)"
  proof
    assume h: "sc_wait_state s = Some a \<and> holders s a = 0"
    from ok have P: "ptrs_ok s" and C: "counts_ok s" by (simp_all add: sys_ok_def)
    from h have a: "a < next_addr s" using ptrs_ok_sc[OF P] by blast
    from C a have "remaining_locks (heap s a) = int (holders s a)"
      by (simp add: counts_ok_def holders_card[OF P])
    with h have "\<not> blocked (heap s a)" by (simp add: blocked_def)
    with h ns show "waiters (wait_for_success s) (next_waiter s) = Some (Returned False)"
      by (simp add: wfs_waiters cur_def)
  qed
  from ns 2 3 4 show ?thesis by blast
qed

theorem all_failed_resolves_false_witness:
  "run [Acquire, Acquire, WaitStart] SuccessCondition_ctor = Some pending2 \<and>
   \<not> succeeds_on 0 [Acquire, Acquire, WaitStart] SuccessCondition_ctor \<and>
   run [Release 0 False, Destroy 1] pending2 = Some pending2_failed \<and>
   \<not> succeeds_on 0 [Release 0 False, Destroy 1] pending2 \<and>
   waiters pending2 0 = Some (Suspended 0) \<and>
   waiters pending2_failed 0 = Some (Woken 0) \<and>
   \<not> success (heap pending2_failed 0) \<and>
   resume 0 pending2_failed =
     Some (pending2_failed\<lparr>waiters := (waiters pending2_failed)(0 \<mapsto> Returned False)\<rparr>) \<and>
   run [Acquire, Acquire] SuccessCondition_ctor = Some locked2 \<and>
   \<not> succeeds_on 0 [Acquire, Acquire] SuccessCondition_ctor \<and>
   run [Release 0 False, Destroy 1] locked2 = Some locked2_failed \<and>
   \<not> succeeds_on 0 [Release 0 False, Destroy 1] locked2 \<and>
   sc_wait_state locked2_failed = Some 0 \<and> holders locked2_failed 0 = 0 \<and>
   waiters (wait_for_success locked2_failed) (next_waiter locked2_failed) = Some (Returned False)"
proof -
  from all_failed_resolves_false[OF pending2_run pending2_no_success pending2_failed_run
      pending2_failed_no_success] pending2_failed_waiter
  have a: "\<not> success (heap pending2_failed 0) \<and>
      resume 0 pending2_failed =
        Some (pending2_failed\<lparr>waiters := (waiters pending2_failed)(0 \<mapsto> Returned False)\<rparr>)"
    by blast
  from all_failed_resolves_false[OF locked2_run locked2_no_success locked2_failed_run
      locked2_failed_no_success] locked2_failed_sc locked2_failed_holders
  have b: "waiters (wait_for_success locked2_failed) (next_waiter locked2_failed) =
      Some (Returned False)"
    by blast
  from a b pending2_run pending2_no_success pending2_failed_run pending2_failed_no_success
    pending2_waiter pending2_failed_waiter locked2_run locked2_no_success locked2_failed_run
    locked2_failed_no_success locked2_failed_sc locked2_failed_holders
  show ?thesis by blast
qed

text \<open>
  C3. On a coordinator on which \<^verbatim>\<open>lock()\<close> has never been called, whatever else has
  happened, the coordinator holds no state and a call of \<^verbatim>\<open>wait_for_success\<close>
  returns false in the same step: the caller is never suspended.
\<close>

theorem empty_race_returns_false:
  assumes "run es SuccessCondition_ctor = Some s" and "Acquire \<notin> set es"
  shows "sc_wait_state s = None \<and>
         waiters (wait_for_success s) (next_waiter s) = Some (Returned False)"
proof -
  have "sc_wait_state SuccessCondition_ctor = None" by (simp add: SuccessCondition_ctor_def)
  from no_acquire_run[OF assms this] show ?thesis by (simp add: wfs_waiters)
qed

theorem empty_race_returns_false_witness:
  "run [WaitStart, WaitStart] SuccessCondition_ctor = Some waited2 \<and>
   Acquire \<notin> set [WaitStart, WaitStart] \<and>
   sc_wait_state waited2 = None \<and>
   waiters (wait_for_success waited2) (next_waiter waited2) = Some (Returned False)"
proof -
  have n: "Acquire \<notin> set [WaitStart, WaitStart]" by simp
  from empty_race_returns_false[OF waited2_run n] waited2_run n show ?thesis by blast
qed

text \<open>
  C5. The flag \<^verbatim>\<open>success\<close> of an existing race is never unset: from a state in which
  it is set, whatever runs afterwards (releases with failure, destructors, moves, new
  acquisitions and waits), it is still set, a woken waiter of the race returns true when
  resumed, and a call of \<^verbatim>\<open>wait_for_success\<close> on the race returns true at once.
\<close>

theorem success_is_monotonic:
  assumes "a < next_addr s" and "success (heap s a)" and "run es s = Some s'"
  shows "success (heap s' a) \<and>
         (\<forall>w. waiters s' w = Some (Woken a) \<longrightarrow>
            resume w s' = Some (s'\<lparr>waiters := (waiters s')(w \<mapsto> Returned True)\<rparr>)) \<and>
         (sc_wait_state s' = Some a \<longrightarrow>
            waiters (wait_for_success s') (next_waiter s') = Some (Returned True))"
proof -
  from run_success_mono[OF assms(3,1,2)] have su: "success (heap s' a)" by simp
  have "resume w s' = Some (s'\<lparr>waiters := (waiters s')(w \<mapsto> Returned True)\<rparr>)"
    if "waiters s' w = Some (Woken a)" for w
    using resume_woken[OF that] su by simp
  with su wfs_returns_success[of s' a] show ?thesis by blast
qed

theorem success_is_monotonic_witness:
  "0 < next_addr (release 1 True pending3) \<and>
   success (heap (release 1 True pending3) 0) \<and>
   run [Release 0 False] (release 1 True pending3) = Some pending3_won \<and>
   success (heap pending3_won 0) \<and>
   waiters pending3_won 0 = Some (Woken 0) \<and>
   resume 0 pending3_won =
     Some (pending3_won\<lparr>waiters := (waiters pending3_won)(0 \<mapsto> Returned True)\<rparr>) \<and>
   0 < next_addr (release 0 True locked2) \<and>
   success (heap (release 0 True locked2) 0) \<and>
   run [Release 1 False] (release 0 True locked2) = Some locked2_won \<and>
   sc_wait_state locked2_won = Some 0 \<and>
   waiters (wait_for_success locked2_won) (next_waiter locked2_won) = Some (Returned True)"
proof -
  from success_is_monotonic[OF pending3_first_addr pending3_first_success pending3_won_run]
    pending3_won_waiter
  have a: "success (heap pending3_won 0) \<and>
      resume 0 pending3_won =
        Some (pending3_won\<lparr>waiters := (waiters pending3_won)(0 \<mapsto> Returned True)\<rparr>)"
    by blast
  from success_is_monotonic[OF locked2_first_addr locked2_first_success locked2_won_run]
    locked2_won_sc
  have b: "waiters (wait_for_success locked2_won) (next_waiter locked2_won) = Some (Returned True)"
    by blast
  from a b pending3_first_addr pending3_first_success pending3_won_run pending3_won_waiter
    locked2_first_addr locked2_first_success locked2_won_run locked2_won_sc
  show ?thesis by blast
qed

text \<open>
  C6. If a lock of the coordinator's current race is consumed by \<^verbatim>\<open>release(true)\<close>
  before \<^verbatim>\<open>wait_for_success\<close> is called, then, whatever else happens in between, the
  call returns true in the same step: the caller is not suspended, so the wake-up that
  came before the wait is not lost.
\<close>

theorem no_missed_wakeup:
  assumes "run es0 SuccessCondition_ctor = Some s" and "holds s a l" and "sc_wait_state s = Some a"
    and "run es (release l True s) = Some s'" and "WaitStart \<notin> set es"
  shows "sc_wait_state s' = Some a \<and>
         waiters (wait_for_success s') (next_waiter s') = Some (Returned True)"
proof -
  let ?s1 = "release l True s"
  have "sys_ok s" by (rule reachable_wf[OF assms(1)])
  then have P: "ptrs_ok s" by (simp add: sys_ok_def)
  have a1: "a < next_addr ?s1" using ptrs_ok_holds[OF P assms(2)] by simp
  have su1: "success (heap ?s1 a)" using assms(2) by (simp add: release_success)
  from run_success_mono[OF assms(4) a1 su1] have su': "success (heap s' a)" by simp
  have "sc_wait_state ?s1 = Some a" using assms(3) by simp
  from run_keeps_sc[OF assms(4,5) this] have sc': "sc_wait_state s' = Some a" .
  from sc' wfs_returns_success[OF sc' su'] show ?thesis by blast
qed

theorem no_missed_wakeup_witness:
  "run [Acquire, Acquire] SuccessCondition_ctor = Some locked2 \<and>
   holds locked2 0 0 \<and>
   sc_wait_state locked2 = Some 0 \<and>
   run [Release 1 False] (release 0 True locked2) = Some locked2_won \<and>
   WaitStart \<notin> set [Release 1 False] \<and>
   waiters (wait_for_success locked2_won) (next_waiter locked2_won) = Some (Returned True)"
proof -
  have n: "WaitStart \<notin> set [Release 1 False]" by simp
  from no_missed_wakeup[OF locked2_run locked2_holds locked2_sc locked2_won_run n]
    locked2_run locked2_holds locked2_sc locked2_won_run n
  show ?thesis by blast
qed

text \<open>
  C7, counterexample. The claim that no operation increases \<^verbatim>\<open>remaining_locks\<close>
  fails: the constructor of a lock increments it, so the second call of \<^verbatim>\<open>lock()\<close>
  takes the counter of the race from 1 to 2.
\<close>

theorem remaining_only_decreases_counterexample:
  "run [Acquire] SuccessCondition_ctor = Some locked1 \<and>
   step Acquire locked1 = Some locked2 \<and>
   remaining_locks (heap locked1 0) = 1 \<and>
   remaining_locks (heap locked2 0) = 2"
  by (simp add: locked1_def locked2_def op_defs)

text \<open>
  C7, as amended. The counter of an existing race goes up only by a call of
  \<^verbatim>\<open>lock()\<close> while the coordinator refers to that race, and then by exactly one; no
  release, destructor, move, wait or resumption increases it.
\<close>

theorem remaining_increases_only_by_lock:
  assumes "step e s = Some s'" and "a < next_addr s"
  shows "remaining_locks (heap s' a) \<le>
           remaining_locks (heap s a) + (if e = Acquire \<and> sc_wait_state s = Some a then 1 else 0)"
  using step_remaining[OF assms] by (simp split: if_splits)

theorem remaining_increases_only_by_lock_witness:
  "step (Release 0 False) locked2 = Some (release 0 False locked2) \<and>
   0 < next_addr locked2 \<and>
   remaining_locks (heap locked2 0) = 2 \<and>
   remaining_locks (heap (release 0 False locked2) 0) \<le> 2"
  using remaining_increases_only_by_lock[OF locked2_release locked2_addr]
    locked2_release locked2_addr locked2_remaining
  by simp

text \<open>
  C9. A call of \<^verbatim>\<open>wait_for_success\<close> takes the race away from the coordinator. As
  long as \<^verbatim>\<open>lock()\<close> is not called, the coordinator holds no state and another call
  of \<^verbatim>\<open>wait_for_success\<close> returns false in the same step. The next \<^verbatim>\<open>lock()\<close>
  succeeds and starts a race in a newly created state, with one participant, no success
  and an unfired condition; no lock and no waiter of an earlier race refers to that
  state, and the states of the earlier races are left as they were.
\<close>

theorem wait_resets_coordinator:
  assumes "run es0 SuccessCondition_ctor = Some s" and "run es (wait_for_success s) = Some s'"
    and "Acquire \<notin> set es"
  shows "sc_wait_state s' = None \<and>
         waiters (wait_for_success s') (next_waiter s') = Some (Returned False) \<and>
         (\<exists>s''. lock s' = Some s'' \<and>
            sc_wait_state s'' = Some (next_addr s') \<and>
            locks s'' (next_lock s') = Some \<lparr>lock_wait_state = Some (next_addr s')\<rparr> \<and>
            remaining_locks (heap s'' (next_addr s')) = 1 \<and>
            \<not> success (heap s'' (next_addr s')) \<and>
            condition (heap s'' (next_addr s')) = \<lparr>fired = False, queue = []\<rparr> \<and>
            (\<forall>x. x \<noteq> next_addr s' \<longrightarrow> heap s'' x = heap s' x) \<and>
            waiters s'' = waiters s') \<and>
         (\<forall>l. \<not> holds s' (next_addr s') l) \<and>
         (\<forall>w. waiters s' w \<noteq> Some (Suspended (next_addr s')) \<and>
              waiters s' w \<noteq> Some (Woken (next_addr s')))"
proof -
  have ok: "sys_ok s" by (rule reachable_wf[OF assms(1)])
  have "step WaitStart s = Some (wait_for_success s)" by simp
  from wf_step[OF ok this] have "sys_ok (wait_for_success s)" .
  from wf_run[OF this assms(2)] have "sys_ok s'" .
  then have P: "ptrs_ok s'" by (simp add: sys_ok_def)
  have "sc_wait_state (wait_for_success s) = None" by simp
  from no_acquire_run[OF assms(2,3) this] have sc: "sc_wait_state s' = None" .
  have w: "waiters (wait_for_success s') (next_waiter s') = Some (Returned False)"
    using sc by (simp add: wfs_waiters)
  let ?a = "next_addr s'"
  let ?s'' = "s'\<lparr>heap := (heap s')(?a := \<lparr>condition = \<lparr>fired = False, queue = []\<rparr>,
                 remaining_locks = 1, success = False\<rparr>),
               next_addr := Suc ?a, sc_wait_state := Some ?a,
               locks := (locks s')(next_lock s' \<mapsto> \<lparr>lock_wait_state = Some ?a\<rparr>),
               next_lock := Suc (next_lock s')\<rparr>"
  have L: "lock s' = Some ?s''"
    using sc by (simp add: lock_def ensure_wait_state_def make_shared_def Lock_ctor_def
        WaitState_ctor_def INT_MAX_def)
  have fresh: "\<exists>s''. lock s' = Some s'' \<and>
            sc_wait_state s'' = Some ?a \<and>
            locks s'' (next_lock s') = Some \<lparr>lock_wait_state = Some ?a\<rparr> \<and>
            remaining_locks (heap s'' ?a) = 1 \<and>
            \<not> success (heap s'' ?a) \<and>
            condition (heap s'' ?a) = \<lparr>fired = False, queue = []\<rparr> \<and>
            (\<forall>x. x \<noteq> ?a \<longrightarrow> heap s'' x = heap s' x) \<and>
            waiters s'' = waiters s'"
    by (rule exI[of _ ?s'']) (simp add: L)
  have nl: "\<forall>l. \<not> holds s' ?a l"
    using ptrs_ok_holds[OF P] by fastforce
  have nw: "\<forall>w. waiters s' w \<noteq> Some (Suspended ?a) \<and> waiters s' w \<noteq> Some (Woken ?a)"
    using ptrs_ok_waiter[OF P] by fastforce
  from sc w fresh nl nw show ?thesis by blast
qed

theorem wait_resets_coordinator_witness:
  "run [Acquire] SuccessCondition_ctor = Some locked1 \<and>
   run [Release 0 True, Resume 0] (wait_for_success locked1) = Some finished1 \<and>
   Acquire \<notin> set [Release 0 True, Resume 0] \<and>
   waiters finished1 0 = Some (Returned True) \<and>
   sc_wait_state finished1 = None \<and>
   waiters (wait_for_success finished1) (next_waiter finished1) = Some (Returned False)"
proof -
  have n: "Acquire \<notin> set [Release 0 True, Resume 0]" by simp
  from wait_resets_coordinator[OF locked1_run finished1_run n]
    locked1_run finished1_run n finished1_waiter
  show ?thesis by blast
qed

text \<open>
  C10. A move assignment into a live lock from another live lock leaves the shared
  state and the waiters exactly as \<^verbatim>\<open>release(false)\<close> on the target leaves them: a
  race that the target still held loses one participant and gains no success. The target
  takes over what the source held, and the source holds nothing: releasing it, with
  either argument, changes nothing at all, and destroying it changes neither the shared
  state nor the waiters nor any other lock.
\<close>

theorem move_assign_semantics:
  assumes "locks s tgt \<noteq> None" and "locks s other \<noteq> None" and "tgt \<noteq> other"
    and "s' = Lock_move_assign tgt other s"
  shows "heap s' = heap (release tgt False s) \<and>
         waiters s' = waiters (release tgt False s) \<and>
         (\<forall>a. holds s a tgt \<longrightarrow>
            remaining_locks (heap s' a) = remaining_locks (heap s a) - 1 \<and>
            success (heap s' a) = success (heap s a)) \<and>
         locks s' tgt = locks s other \<and>
         locks s' other = Some \<lparr>lock_wait_state = None\<rparr> \<and>
         (\<forall>b. release other b s' = s') \<and>
         heap (Lock_dtor other s') = heap s' \<and>
         waiters (Lock_dtor other s') = waiters s' \<and>
         (\<forall>l. l \<noteq> other \<longrightarrow> locks (Lock_dtor other s') l = locks s' l)"
proof -
  from assms(2) obtain ol where ol: "locks s other = Some ol" by blast
  have lo: "locks s' other = Some \<lparr>lock_wait_state = None\<rparr>"
    using assms(2,3) by (auto simp: assms(4) Lock_move_assign_def Let_def release_locks)
  have lt: "locks s' tgt = locks s other"
    using assms(1,3) ol by (auto simp: assms(4) Lock_move_assign_def Let_def release_locks)
  have inert: "release other b s' = s'" for b
    by (rule release_inert) (simp add: holds_def lo)
  have "\<forall>a. holds s a tgt \<longrightarrow>
            remaining_locks (heap s' a) = remaining_locks (heap s a) - 1 \<and>
            success (heap s' a) = success (heap s a)"
    by (simp add: assms(4) release_remaining release_success)
  moreover have "\<forall>l. l \<noteq> other \<longrightarrow> locks (Lock_dtor other s') l = locks s' l"
    by (simp add: Lock_dtor_def inert)
  ultimately show ?thesis using lo lt inert
    by (simp add: assms(4))
qed

theorem move_assign_semantics_witness:
  "locks locked2 0 \<noteq> None \<and> locks locked2 1 \<noteq> None \<and> (0::nat) \<noteq> 1 \<and>
   moved2 = Lock_move_assign 0 1 locked2 \<and>
   holds locked2 0 0 \<and>
   remaining_locks (heap locked2 0) = 2 \<and>
   remaining_locks (heap moved2 0) = 1 \<and>
   holds moved2 0 0 \<and>
   locks moved2 1 = Some \<lparr>lock_wait_state = None\<rparr> \<and>
   release 1 True moved2 = moved2 \<and>
   locks (Lock_dtor 1 moved2) 0 = locks moved2 0"
proof -
  have n: "(0::nat) \<noteq> 1" by simp
  from move_assign_semantics[OF locked2_lock0 locked2_lock1 n moved2_def] locked2_holds
  have "remaining_locks (heap moved2 0) = remaining_locks (heap locked2 0) - 1 \<and>
      locks moved2 1 = Some \<lparr>lock_wait_state = None\<rparr> \<and>
      release 1 True moved2 = moved2 \<and>
      locks (Lock_dtor 1 moved2) 0 = locks moved2 0"
    by (metis n)
  with locked2_lock0 locked2_lock1 n moved2_def locked2_holds locked2_remaining moved2_holds
  show ?thesis by simp
qed

text \<open>
  C8. Whatever the resolver and the transport answer and whether or not cancellation
  fired, \<^verbatim>\<open>connect_to_host\<close> yields either a connection or an error, the result being
  a sum, and the error is \<open>ResolutionFailure\<close>, \<open>ConnectionFailed\<close> or \<open>Cancelled\<close>:
  the errors of the resolver and of single candidates never surface. A connection that
  is returned is one that the transport opened for a resolved candidate, and none is
  returned once cancellation has fired.
\<close>

theorem connect_to_host_result:
  "(connect_to_host resolve open_transport cancel_fired host port = Inl ResolutionFailure \<or>
    connect_to_host resolve open_transport cancel_fired host port = Inl ConnectionFailed \<or>
    connect_to_host resolve open_transport cancel_fired host port = Inl Cancelled \<or>
    (\<exists>c. connect_to_host resolve open_transport cancel_fired host port = Inr c)) \<and>
   (\<forall>c. connect_to_host resolve open_transport cancel_fired host port = Inr c \<longrightarrow>
      \<not> cancel_fired \<and>
      (\<exists>addrs addr. resolve host port = Inr addrs \<and> addr \<in> set addrs \<and>
         open_transport addr = Inr c))"
proof -
  let ?r = "connect_to_host resolve open_transport cancel_fired host port"
  have kinds: "?r = Inl ResolutionFailure \<or> ?r = Inl ConnectionFailed \<or> ?r = Inl Cancelled \<or>
      (\<exists>c. ?r = Inr c)"
    by (simp add: connect_to_host_def split: sum.splits list.splits option.splits)
  have live: "\<not> cancel_fired \<and>
      (\<exists>addrs addr. resolve host port = Inr addrs \<and> addr \<in> set addrs \<and> open_transport addr = Inr c)"
    if r: "?r = Inr c" for c
  proof -
    from r obtain addrs where a: "resolve host port = Inr addrs"
      and f: "first_recorded (map (endpoint_attempt open_transport cancel_fired) addrs) = Some c"
      by (auto simp: connect_to_host_def split: sum.splits list.splits option.splits)
    from first_recorded_source[OF f] obtain addr where "addr \<in> set addrs"
      "endpoint_attempt open_transport cancel_fired addr = Some c" by blast
    with endpoint_attempt_Some[of open_transport cancel_fired addr c] a show ?thesis by blast
  qed
  from kinds live show ?thesis by blast
qed

theorem connect_to_host_result_witness:
  "connect_to_host example_resolve example_open False ''example.org'' ''443'' = Inr 7 \<and>
   (\<exists>addrs addr. example_resolve ''example.org'' ''443'' = Inr addrs \<and> addr \<in> set addrs \<and>
      example_open addr = Inr 7)"
  using connect_to_host_result[of example_resolve example_open False "''example.org''" "''443''"]
    example_connect by blast

end
